theory Spec2Isabelle
  imports Complex_Main "HOL-Library.AList" "HOL-Library.Log_Nat" "HOL-Library.Word"
begin

section \<open>float64\<close>

text \<open>
  Go's \<^verbatim>\<open>float64\<close> is IEEE 754 binary64. A value is a signed finite number, a signed
  infinity or NaN; a finite number is its sign and its magnitude, so that the two zeros are
  told apart. Every arithmetic operation computes the exact real result and rounds it to
  the nearest representable number, ties to the even significand, and each operation of
  the source is rounded on its own (the compiler does not fuse a multiplication with an
  addition on amd64).
\<close>

datatype float64 = Num bool real | Infty bool | NaN

text \<open>
  The binary exponent of a positive real: \<open>2 ^ expo x \<le> x < 2 ^ (expo x + 1)\<close>. The
  exponent of the last place of the float nearest to \<open>x\<close>: 52 places below the
  exponent, and never below that of the subnormal numbers.
\<close>

definition expo :: "real \<Rightarrow> int" where
  "expo x = (if 1 \<le> x then bitlen \<lfloor>x\<rfloor> - 1 else - bitlen (\<lceil>1 / x\<rceil> - 1))"

definition qexp :: "real \<Rightarrow> int" where
  "qexp x = max (expo x) (- 1022) - 52"

text \<open>Rounding a real to the nearest integer, ties to the even one.\<close>

definition rne :: "real \<Rightarrow> int" where
  "rne x =
     (let f = \<lfloor>x\<rfloor>; d = x - real_of_int f
      in if d < 1 / 2 then f
         else if 1 / 2 < d then f + 1
         else if even f then f else f + 1)"

text \<open>
  The magnitude nearest to a non-negative real among the numbers with 53 significant bits
  and unbounded exponent; \<open>mk\<close> turns a magnitude that is too large into an infinity.
\<close>

definition round_mag :: "real \<Rightarrow> real" where
  "round_mag x =
     (if x \<le> 0 then 0
      else real_of_int (rne (x / 2 powi qexp x)) * 2 powi qexp x)"

definition mk :: "bool \<Rightarrow> real \<Rightarrow> float64" where
  "mk s x = (let m = round_mag x in if 2 ^ 1024 \<le> m then Infty s else Num s m)"

definition valof :: "float64 \<Rightarrow> real" where
  "valof x = (case x of Num s m \<Rightarrow> (if s then - m else m) | _ \<Rightarrow> 0)"

text \<open>
  The float for an exact result \<open>r\<close>; \<open>z\<close> is the sign of the zero that an exact
  zero result gets.
\<close>

definition rnd :: "bool \<Rightarrow> real \<Rightarrow> float64" where
  "rnd z r = (if r = 0 then Num z 0 else mk (r < 0) \<bar>r\<bar>)"

fun fneg :: "float64 \<Rightarrow> float64" where
  "fneg (Num s m) = Num (\<not> s) m"
| "fneg (Infty s) = Infty (\<not> s)"
| "fneg NaN = NaN"

fun fadd :: "float64 \<Rightarrow> float64 \<Rightarrow> float64" where
  "fadd NaN _ = NaN"
| "fadd _ NaN = NaN"
| "fadd (Infty s) (Infty t) = (if s = t then Infty s else NaN)"
| "fadd (Infty s) (Num _ _) = Infty s"
| "fadd (Num _ _) (Infty t) = Infty t"
| "fadd (Num s m) (Num t n) = rnd (s \<and> t) (valof (Num s m) + valof (Num t n))"

definition fsub :: "float64 \<Rightarrow> float64 \<Rightarrow> float64" where
  "fsub a b = fadd a (fneg b)"

fun fmul :: "float64 \<Rightarrow> float64 \<Rightarrow> float64" where
  "fmul NaN _ = NaN"
| "fmul _ NaN = NaN"
| "fmul (Infty s) (Infty t) = Infty (s \<noteq> t)"
| "fmul (Infty s) (Num t n) = (if n = 0 then NaN else Infty (s \<noteq> t))"
| "fmul (Num s m) (Infty t) = (if m = 0 then NaN else Infty (s \<noteq> t))"
| "fmul (Num s m) (Num t n) = mk (s \<noteq> t) (m * n)"

fun fdiv :: "float64 \<Rightarrow> float64 \<Rightarrow> float64" where
  "fdiv NaN _ = NaN"
| "fdiv _ NaN = NaN"
| "fdiv (Infty s) (Infty t) = NaN"
| "fdiv (Infty s) (Num t n) = Infty (s \<noteq> t)"
| "fdiv (Num s m) (Infty t) = Num (s \<noteq> t) 0"
| "fdiv (Num s m) (Num t n) =
     (if n = 0 then (if m = 0 then NaN else Infty (s \<noteq> t))
      else mk (s \<noteq> t) (m / n))"

text \<open>The comparisons \<^verbatim>\<open><\<close>, \<^verbatim>\<open><=\<close>, \<^verbatim>\<open>>\<close>, \<^verbatim>\<open>>=\<close>: false whenever an operand is NaN.\<close>

fun flt :: "float64 \<Rightarrow> float64 \<Rightarrow> bool" where
  "flt NaN _ = False"
| "flt _ NaN = False"
| "flt (Infty s) (Infty t) = (s \<and> \<not> t)"
| "flt (Infty s) (Num _ _) = s"
| "flt (Num _ _) (Infty t) = (\<not> t)"
| "flt (Num s m) (Num t n) = (valof (Num s m) < valof (Num t n))"

fun fle :: "float64 \<Rightarrow> float64 \<Rightarrow> bool" where
  "fle NaN _ = False"
| "fle _ NaN = False"
| "fle (Infty s) (Infty t) = (s \<or> \<not> t)"
| "fle (Infty s) (Num _ _) = s"
| "fle (Num _ _) (Infty t) = (\<not> t)"
| "fle (Num s m) (Num t n) = (valof (Num s m) \<le> valof (Num t n))"

definition fgt :: "float64 \<Rightarrow> float64 \<Rightarrow> bool" where
  "fgt a b = flt b a"

definition fge :: "float64 \<Rightarrow> float64 \<Rightarrow> bool" where
  "fge a b = fle b a"

text \<open>The conversion \<^verbatim>\<open>float64(i)\<close> of an integer.\<close>

definition f64_of_int :: "int \<Rightarrow> float64" where
  "f64_of_int i = rnd False (real_of_int i)"

text \<open>\<^verbatim>\<open>math.Min\<close> and \<^verbatim>\<open>math.Ceil\<close>, with their special cases.\<close>

definition is_zero :: "float64 \<Rightarrow> bool" where
  "is_zero x = (case x of Num s m \<Rightarrow> m = 0 | _ \<Rightarrow> False)"

definition signbit :: "float64 \<Rightarrow> bool" where
  "signbit x = (case x of Num s m \<Rightarrow> s | Infty s \<Rightarrow> s | NaN \<Rightarrow> False)"

definition fmin :: "float64 \<Rightarrow> float64 \<Rightarrow> float64" where
  "fmin x y =
     (if x = Infty True \<or> y = Infty True then Infty True
      else if x = NaN \<or> y = NaN then NaN
      else if is_zero x \<and> is_zero y then (if signbit x then x else y)
      else if flt x y then x else y)"

definition fceil :: "float64 \<Rightarrow> float64" where
  "fceil x =
     (case x of
        Num s m \<Rightarrow>
          (let c = \<lceil>valof (Num s m)\<rceil>
           in Num (c < 0 \<or> (c = 0 \<and> s)) (real_of_int \<bar>c\<bar>))
      | _ \<Rightarrow> x)"

text \<open>
  The conversion \<^verbatim>\<open>int64(x)\<close> of a float: the fraction is discarded (truncation
  towards zero). For NaN, an infinity or a number whose truncation does not fit in 64 bits
  the Go specification leaves the result to the implementation; that result is the
  parameter \<open>oor\<close>.
\<close>

definition truncate_toward_zero :: "real \<Rightarrow> int" where
  "truncate_toward_zero x = (if 0 \<le> x then \<lfloor>x\<rfloor> else \<lceil>x\<rceil>)"

definition int64_of_float64 :: "(float64 \<Rightarrow> int) \<Rightarrow> float64 \<Rightarrow> int" where
  "int64_of_float64 oor x =
     (case x of
        Num s m \<Rightarrow>
          (let t = truncate_toward_zero (valof (Num s m))
           in if - (2 ^ 63) \<le> t \<and> t < 2 ^ 63 then t else oor x)
      | _ \<Rightarrow> oor x)"

text \<open>One implementation's out-of-range result (the smallest \<^verbatim>\<open>int64\<close>), for concrete runs.\<close>

definition oor_min :: "float64 \<Rightarrow> int" where
  "oor_min x = - (2 ^ 63)"

text \<open>The float constants of the source: \<^verbatim>\<open>1\<close>, \<^verbatim>\<open>1000\<close> and \<^verbatim>\<open>float64(time.Second)\<close>.\<close>

definition f64_1 :: float64 where
  "f64_1 = Num False 1"

definition f64_1000 :: float64 where
  "f64_1000 = Num False 1000"

definition f64_Second :: float64 where
  "f64_Second = Num False 1000000000"

section \<open>Time\<close>

text \<open>
  \<^verbatim>\<open>time.Time\<close> is an instant counted in nanoseconds and \<^verbatim>\<open>time.Duration\<close> (an
  \<^verbatim>\<open>int64\<close> of nanoseconds) an integer whose 64-bit range is written out where the
  code does arithmetic on it. Every call of \<^verbatim>\<open>time.Now()\<close> in the source is an explicit
  argument of the function that makes it. The \<^verbatim>\<open>int64\<close> values that enter float
  arithmetic (the capacity, the amount \<open>n\<close>) are 64-bit words read as signed.
\<close>

type_synonym Time = int
type_synonym Duration = int

definition minDuration :: Duration where
  "minDuration = - (2 ^ 63)"

definition maxDuration :: Duration where
  "maxDuration = 2 ^ 63 - 1"

text \<open>\<^verbatim>\<open>t.Sub(u)\<close>: the difference, saturated at the largest and smallest Duration.\<close>

definition Sub :: "Time \<Rightarrow> Time \<Rightarrow> Duration" where
  "Sub t u =
     (if t - u < minDuration then minDuration
      else if maxDuration < t - u then maxDuration
      else t - u)"

text \<open>Division and remainder of Go's integers truncate towards zero (the divisor is positive here).\<close>

definition go_quot :: "int \<Rightarrow> int \<Rightarrow> int" where
  "go_quot a b = (if 0 \<le> a then a div b else - ((- a) div b))"

definition go_rem :: "int \<Rightarrow> int \<Rightarrow> int" where
  "go_rem a b = a - b * go_quot a b"

text \<open>
  \<^verbatim>\<open>d.Seconds()\<close>, as the standard library computes it:
  \<^verbatim>\<open>sec := d / Second; nsec := d % Second; return float64(sec) + float64(nsec)/1e9\<close>.
\<close>

definition Seconds :: "Duration \<Rightarrow> float64" where
  "Seconds d =
     (let sec = go_quot d 1000000000;
          nsec = go_rem d 1000000000
      in fadd (f64_of_int sec) (fdiv (f64_of_int nsec) f64_Second))"

text \<open>\<^verbatim>\<open>t.Add(d)\<close> and \<^verbatim>\<open>t.Before(u)\<close>.\<close>

definition Add :: "Time \<Rightarrow> Duration \<Rightarrow> Time" where
  "Add t d = t + d"

definition Before :: "Time \<Rightarrow> Time \<Rightarrow> bool" where
  "Before t u \<longleftrightarrow> t < u"

text \<open>Unary minus on an \<^verbatim>\<open>int64\<close>: the smallest value is its own negation.\<close>

definition neg64 :: "int \<Rightarrow> int" where
  "neg64 d = (if d = - (2 ^ 63) then - (2 ^ 63) else - d)"

section \<open>Errors (errors.go)\<close>

datatype error =
    ErrInvalidConfig
  | ErrNegativeCapacity
  | ErrNegativeRefillRate
  | ErrInvalidKey
  | ErrStoreFailed
  | ErrKeyExtractionFailed
  | StoreFailedCreate error   \<comment> \<open>\<^verbatim>\<open>ErrStoreFailed\<close> wrapped around the cause, in GetBucket\<close>
  | FailedToGetBucket error   \<comment> \<open>the store's error wrapped by the limiter's Allow\<close>
  | NilPointer                \<comment> \<open>the panic of a call through a reference that holds no bucket\<close>

section \<open>Bucket (token\_bucket.go)\<close>

record Bucket =
  capacity :: "64 word"
  tokens :: float64
  refillRate :: float64
  lastRefillTime :: Time

definition NewBucket :: "64 word \<Rightarrow> float64 \<Rightarrow> Time \<Rightarrow> error + Bucket" where
  "NewBucket cap rate now =
     (if sint cap \<le> 0 then Inl ErrNegativeCapacity
      else if fle rate (Num False 0) then Inl ErrNegativeRefillRate
      else Inr \<lparr>capacity = cap, tokens = f64_of_int (sint cap),
                refillRate = rate, lastRefillTime = now\<rparr>)"

definition refill :: "Bucket \<Rightarrow> Time \<Rightarrow> Bucket" where
  "refill b now =
     (let elapsed = Seconds (Sub now (lastRefillTime b));
          tokensToAdd = fmul elapsed (refillRate b);
          b1 = b\<lparr>tokens := fadd (tokens b) tokensToAdd\<rparr>;
          b2 = (if fgt (tokens b1) (f64_of_int (sint (capacity b1)))
                then b1\<lparr>tokens := f64_of_int (sint (capacity b1))\<rparr> else b1)
      in b2\<lparr>lastRefillTime := now\<rparr>)"

definition AllowN :: "Bucket \<Rightarrow> Time \<Rightarrow> 64 word \<Rightarrow> bool \<times> Bucket" where
  "AllowN b now n =
     (let b1 = refill b now
      in if fge (tokens b1) (f64_of_int (sint n))
         then (True, b1\<lparr>tokens := fsub (tokens b1) (f64_of_int (sint n))\<rparr>)
         else (False, b1))"

definition Allow :: "Bucket \<Rightarrow> Time \<Rightarrow> bool \<times> Bucket" where
  "Allow b now = AllowN b now 1"

definition Remaining :: "(float64 \<Rightarrow> int) \<Rightarrow> Bucket \<Rightarrow> Time \<Rightarrow> int \<times> Bucket" where
  "Remaining oor b now =
     (let b1 = refill b now in (int64_of_float64 oor (tokens b1), b1))"

definition Capacity :: "Bucket \<Rightarrow> 64 word" where
  "Capacity b = capacity b"

definition RefillRate :: "Bucket \<Rightarrow> float64" where
  "RefillRate b = refillRate b"

definition RetryAfter :: "(float64 \<Rightarrow> int) \<Rightarrow> Bucket \<Rightarrow> Time \<Rightarrow> Duration \<times> Bucket" where
  "RetryAfter oor b now =
     (let b1 = refill b now
      in if fge (tokens b1) f64_1 then (0, b1)
         else
           (let tokensNeeded = fsub f64_1 (tokens b1);
                secondsNeeded = fdiv tokensNeeded (refillRate b1)
            in (int64_of_float64 oor (fmul secondsNeeded f64_Second), b1)))"

section \<open>The core package's token bucket (core/types.go, core/bucket.go)\<close>

record Config =
  core_Capacity :: float64
  core_RefillPerSec :: float64

record BucketState =
  Tokens :: float64
  LastRefillAt :: Time

record CheckResult =
  cr_Allowed :: bool
  cr_Remaining :: float64
  RetryAfterMs :: int
  cr_Limit :: float64

record TokenBucket =
  config :: Config

definition NewTokenBucket :: "Config \<Rightarrow> TokenBucket" where
  "NewTokenBucket cfg = \<lparr>config = cfg\<rparr>"

text \<open>The state argument is a pointer in the source; \<open>None\<close> is the nil pointer.\<close>

definition Check ::
  "(float64 \<Rightarrow> int) \<Rightarrow> TokenBucket \<Rightarrow> BucketState option \<Rightarrow> Time
     \<Rightarrow> BucketState \<times> CheckResult" where
  "Check oor tb state0 now =
     (let state = (case state0 of
                     None \<Rightarrow> \<lparr>Tokens = core_Capacity (config tb), LastRefillAt = now\<rparr>
                   | Some st \<Rightarrow> st);
          elapsed = Seconds (Sub now (LastRefillAt state));
          tokensToAdd = fmul elapsed (core_RefillPerSec (config tb));
          newTokens = fmin (fadd (Tokens state) tokensToAdd) (core_Capacity (config tb));
          newState = \<lparr>Tokens = newTokens, LastRefillAt = now\<rparr>
      in if fge (Tokens newState) f64_1
         then
           (let newState1 = newState\<lparr>Tokens := fsub (Tokens newState) f64_1\<rparr>
            in (newState1,
                \<lparr>cr_Allowed = True, cr_Remaining = Tokens newState1, RetryAfterMs = 0,
                 cr_Limit = core_Capacity (config tb)\<rparr>))
         else
           (let tokensNeeded = fsub f64_1 (Tokens newState);
                retryAfterSec = fdiv tokensNeeded (core_RefillPerSec (config tb));
                retryAfterMs = int64_of_float64 oor (fceil (fmul retryAfterSec f64_1000))
            in (newState,
                \<lparr>cr_Allowed = False, cr_Remaining = Num False 0, RetryAfterMs = retryAfterMs,
                 cr_Limit = core_Capacity (config tb)\<rparr>)))"

section \<open>The in-memory store (store.go)\<close>

text \<open>
  \<^verbatim>\<open>GetBucket\<close> hands out pointers to buckets, and callers mutate the bucket through
  them. Bucket objects therefore live in a heap, a list indexed by address; allocation
  appends. The store's map from keys to entries is an association list with distinct keys,
  and \<^verbatim>\<open>len\<close> of the map is its length. Locks are not modelled: every operation runs
  alone, from its first step to its last.
\<close>

record BucketConfig =
  cfg_Capacity :: "64 word"
  cfg_RefillRate :: float64

record bucketEntry =
  bucket :: nat
  lastAccessed :: Time

record InMemoryStore =
  buckets :: "(string \<times> bucketEntry) list"
  store_config :: BucketConfig
  cleanupAge :: Duration
  lastCleanup :: Time

record World =
  heap :: "Bucket list"
  store :: InMemoryStore

definition NewInMemoryStore :: "BucketConfig \<Rightarrow> Duration \<Rightarrow> Time \<Rightarrow> error + InMemoryStore" where
  "NewInMemoryStore cfg age now =
     (if sint (cfg_Capacity cfg) \<le> 0 then Inl ErrNegativeCapacity
      else if fle (cfg_RefillRate cfg) (Num False 0) then Inl ErrNegativeRefillRate
      else Inr \<lparr>buckets = [], store_config = cfg, cleanupAge = age, lastCleanup = now\<rparr>)"

text \<open>The step both lookup branches of \<^verbatim>\<open>GetBucket\<close> share: stamp the entry, return its bucket.\<close>

definition touch :: "World \<Rightarrow> string \<Rightarrow> bucketEntry \<Rightarrow> Time \<Rightarrow> (error + nat) \<times> World" where
  "touch w key entry now =
     (Inr (bucket entry),
      w\<lparr>store := (store w)\<lparr>buckets :=
           AList.update key (entry\<lparr>lastAccessed := now\<rparr>) (buckets (store w))\<rparr>\<rparr>)"

text \<open>
  \<open>tc\<close> is the clock reading inside \<^verbatim>\<open>NewBucket\<close> (taken only when a bucket is
  created), \<open>ta\<close> the reading stored in \<^verbatim>\<open>lastAccessed\<close>.
\<close>

definition GetBucket :: "World \<Rightarrow> string \<Rightarrow> Time \<Rightarrow> Time \<Rightarrow> (error + nat) \<times> World" where
  "GetBucket w key tc ta =
     (if key = [] then (Inl ErrInvalidKey, w)
      else
        (case map_of (buckets (store w)) key of
           Some entry \<Rightarrow> touch w key entry ta
         | None \<Rightarrow>
             (case map_of (buckets (store w)) key of
                Some entry \<Rightarrow> touch w key entry ta
              | None \<Rightarrow>
                  (case NewBucket (cfg_Capacity (store_config (store w)))
                                  (cfg_RefillRate (store_config (store w))) tc of
                     Inl err \<Rightarrow> (Inl (StoreFailedCreate err), w)
                   | Inr b \<Rightarrow>
                       (Inr (length (heap w)),
                        \<lparr>heap = heap w @ [b],
                         store = (store w)\<lparr>buckets :=
                           AList.update key \<lparr>bucket = length (heap w), lastAccessed = ta\<rparr>
                             (buckets (store w))\<rparr>\<rparr>)))))"

text \<open>
  The loop of \<^verbatim>\<open>Cleanup\<close> over the entries of the map: \<open>m\<close> is the map being
  edited, \<open>removed\<close> the counter.
\<close>

fun cleanup_loop ::
  "Time \<Rightarrow> (string \<times> bucketEntry) list \<Rightarrow> (string \<times> bucketEntry) list \<Rightarrow> nat
     \<Rightarrow> (string \<times> bucketEntry) list \<times> nat" where
  "cleanup_loop cutoff [] m removed = (m, removed)"
| "cleanup_loop cutoff ((key, entry) # rest) m removed =
     (if Before (lastAccessed entry) cutoff
      then cleanup_loop cutoff rest (AList.delete key m) (removed + 1)
      else cleanup_loop cutoff rest m removed)"

definition Cleanup :: "InMemoryStore \<Rightarrow> Time \<Rightarrow> nat \<times> InMemoryStore" where
  "Cleanup s now =
     (if cleanupAge s = 0 then (0, s)
      else
        (let cutoff = Add now (neg64 (cleanupAge s));
             (m, removed) = cleanup_loop cutoff (buckets s) (buckets s) 0
         in (removed, s\<lparr>buckets := m, lastCleanup := now\<rparr>)))"

definition Count :: "InMemoryStore \<Rightarrow> nat" where
  "Count s = length (buckets s)"

section \<open>The rate limiter (limiter.go)\<close>

record Decision =
  d_Allowed :: bool
  d_Remaining :: int
  d_Limit :: "64 word"
  d_RetryAfter :: Duration
  d_Key :: string
  d_Route :: string

text \<open>
  \<^verbatim>\<open>rateLimiter.Allow\<close> over the in-memory store. The clock is read in GetBucket
  (\<open>tc\<close>, \<open>ta\<close>), in \<^verbatim>\<open>bucket.Allow()\<close> (\<open>t1\<close>), in \<^verbatim>\<open>bucket.Remaining()\<close>
  (\<open>t2\<close>) and, for a denied request, in \<^verbatim>\<open>bucket.RetryAfter()\<close> (\<open>t3\<close>).
\<close>

definition rl_Allow ::
  "(float64 \<Rightarrow> int) \<Rightarrow> World \<Rightarrow> string \<Rightarrow> Time \<Rightarrow> Time \<Rightarrow> Time \<Rightarrow> Time \<Rightarrow> Time
     \<Rightarrow> (error + Decision) \<times> World" where
  "rl_Allow oor w key tc ta t1 t2 t3 =
     (if key = [] then (Inl ErrInvalidKey, w)
      else
        (case GetBucket w key tc ta of
           (Inl err, w1) \<Rightarrow> (Inl (FailedToGetBucket err), w1)
         | (Inr a, w1) \<Rightarrow>
             (if \<not> a < length (heap w1) then (Inl NilPointer, w1)
              else
                (let (allowed, b1) = Allow (heap w1 ! a) t1;
                     (remaining, b2) = Remaining oor b1 t2;
                     decision = \<lparr>d_Allowed = allowed, d_Remaining = remaining,
                                 d_Limit = Capacity b2, d_RetryAfter = 0,
                                 d_Key = key, d_Route = []\<rparr>
                 in if \<not> allowed
                    then
                      (let (retry, b3) = RetryAfter oor b2 t3
                       in (Inr (decision\<lparr>d_RetryAfter := retry\<rparr>),
                           w1\<lparr>heap := (heap w1)[a := b3]\<rparr>))
                    else (Inr decision, w1\<lparr>heap := (heap w1)[a := b2]\<rparr>)))))"

section \<open>Sequences of bucket operations\<close>

text \<open>The calls a client can make on a bucket that touch its tokens, each with the clock reading it sees.\<close>

datatype bucket_op = OpAllow | OpAllowN "64 word" | OpRemaining | OpRetryAfter

fun apply_op :: "(float64 \<Rightarrow> int) \<Rightarrow> Bucket \<Rightarrow> Time \<times> bucket_op \<Rightarrow> Bucket" where
  "apply_op oor b (now, OpAllow) = snd (Allow b now)"
| "apply_op oor b (now, OpAllowN n) = snd (AllowN b now n)"
| "apply_op oor b (now, OpRemaining) = snd (Remaining oor b now)"
| "apply_op oor b (now, OpRetryAfter) = snd (RetryAfter oor b now)"

text \<open>Every state the bucket goes through, the first one included.\<close>

fun trace :: "(float64 \<Rightarrow> int) \<Rightarrow> Bucket \<Rightarrow> (Time \<times> bucket_op) list \<Rightarrow> Bucket list" where
  "trace oor b [] = [b]"
| "trace oor b (x # xs) = b # trace oor (apply_op oor b x) xs"

fun positive_amount :: "bucket_op \<Rightarrow> bool" where
  "positive_amount (OpAllowN n) = (1 \<le> sint n)"
| "positive_amount _ = True"

section \<open>Well-formed states\<close>

text \<open>The magnitudes of finite floats: below \<open>2 ^ 1024\<close> and left alone by rounding.\<close>

definition finite_ok :: "real \<Rightarrow> bool" where
  "finite_ok m \<longleftrightarrow> 0 \<le> m \<and> m < 2 ^ 1024 \<and> round_mag m = m"

definition is_float64 :: "float64 \<Rightarrow> bool" where
  "is_float64 x = (case x of Num s m \<Rightarrow> finite_ok m | _ \<Rightarrow> True)"

definition is_finite :: "float64 \<Rightarrow> bool" where
  "is_finite x = (case x of Num s m \<Rightarrow> True | _ \<Rightarrow> False)"

text \<open>A finite number greater than zero; a finite number between zero and a bound.\<close>

definition positive_finite :: "float64 \<Rightarrow> bool" where
  "positive_finite x = (case x of Num s m \<Rightarrow> \<not> s \<and> 0 < m | _ \<Rightarrow> False)"

definition in_range :: "float64 \<Rightarrow> int \<Rightarrow> bool" where
  "in_range x c =
     (case x of
        Num s m \<Rightarrow> 0 \<le> valof (Num s m) \<and> valof (Num s m) \<le> real_of_int c
      | _ \<Rightarrow> False)"

text \<open>Not NaN and not negative: a number at least zero, or the positive infinity.\<close>

definition nonneg_float :: "float64 \<Rightarrow> bool" where
  "nonneg_float x =
     (case x of Num s m \<Rightarrow> 0 \<le> valof (Num s m) | Infty s \<Rightarrow> \<not> s | NaN \<Rightarrow> False)"

text \<open>A number at least zero with the sign of \<open>+0\<close>, or the positive infinity.\<close>

definition pos_sign :: "float64 \<Rightarrow> bool" where
  "pos_sign x = (case x of Num s m \<Rightarrow> \<not> s \<and> 0 \<le> m | Infty s \<Rightarrow> \<not> s | NaN \<Rightarrow> False)"

text \<open>A capacity that \<^verbatim>\<open>float64(capacity)\<close> represents exactly.\<close>

definition exact_capacity :: "64 word \<Rightarrow> bool" where
  "exact_capacity c \<longleftrightarrow> f64_of_int (sint c) = Num False (real_of_int (sint c))"

text \<open>
  What every operation with a positive amount keeps: a positive capacity that is exact as
  a float, a finite positive refill rate, and a finite token count between zero and the
  capacity.
\<close>

definition bucket_inv :: "Bucket \<Rightarrow> bool" where
  "bucket_inv b \<longleftrightarrow>
     0 < sint (capacity b) \<and> exact_capacity (capacity b) \<and>
     positive_finite (refillRate b) \<and>
     in_range (tokens b) (sint (capacity b))"

text \<open>
  A valid bucket: one in such a state whose refill rate and tokens are values of
  \<^verbatim>\<open>float64\<close>.
\<close>

definition valid_bucket :: "Bucket \<Rightarrow> bool" where
  "valid_bucket b \<longleftrightarrow>
     bucket_inv b \<and> is_float64 (refillRate b) \<and> is_float64 (tokens b)"

text \<open>The configurations that \<^verbatim>\<open>NewInMemoryStore\<close> and \<^verbatim>\<open>NewBucket\<close> accept.\<close>

definition valid_config :: "BucketConfig \<Rightarrow> bool" where
  "valid_config cfg \<longleftrightarrow>
     0 < sint (cfg_Capacity cfg) \<and> \<not> fle (cfg_RefillRate cfg) (Num False 0)"

text \<open>A store as the code builds it: one entry per key, every entry pointing at an allocated bucket.\<close>

definition wf_world :: "World \<Rightarrow> bool" where
  "wf_world w \<longleftrightarrow>
     distinct (map fst (buckets (store w))) \<and>
     list_all (\<lambda>(k, e). bucket e < length (heap w)) (buckets (store w)) \<and>
     valid_config (store_config (store w))"

text \<open>
  The core package's view of a bucket: the same capacity and refill rate as a
  \<^verbatim>\<open>Config\<close>, the same tokens and refill time as a \<^verbatim>\<open>BucketState\<close>.
\<close>

definition core_config :: "Bucket \<Rightarrow> Config" where
  "core_config b =
     \<lparr>core_Capacity = f64_of_int (sint (capacity b)), core_RefillPerSec = refillRate b\<rparr>"

definition core_state :: "Bucket \<Rightarrow> BucketState" where
  "core_state b = \<lparr>Tokens = tokens b, LastRefillAt = lastRefillTime b\<rparr>"

section \<open>Rounding\<close>

declare of_int_sint [simp del]

lemma expo_bounds:
  assumes "0 < x"
  shows "2 powi expo x \<le> x" and "x < 2 powi (expo x + 1)"
proof -
  have "2 powi expo x \<le> x \<and> x < 2 powi (expo x + 1)"
  proof (cases "1 \<le> x")
    case True
    define n where "n = \<lfloor>x\<rfloor>"
    have n: "0 < n" using True by (simp add: n_def)
    have e: "expo x = bitlen n - 1" using True by (simp add: expo_def n_def)
    have L: "1 \<le> bitlen n" using n by (simp add: bitlen_alt_def) 
    from bitlen_bounds[OF n] have b1: "2 ^ nat (bitlen n - 1) \<le> n" and b2: "n < 2 ^ nat (bitlen n)"
      by simp_all
    have "real_of_int (2 ^ nat (bitlen n - 1)) \<le> real_of_int n" using b1 by (simp only: of_int_le_iff)
    also have "real_of_int n \<le> x" by (simp add: n_def)
    finally have lo: "2 ^ nat (bitlen n - 1) \<le> x" by simp
    have "n + 1 \<le> 2 ^ nat (bitlen n)" using b2 by simp
    then have "real_of_int (n + 1) \<le> real_of_int (2 ^ nat (bitlen n))" by (simp only: of_int_le_iff)
    moreover have "x < real_of_int (n + 1)" by (simp add: n_def)
    ultimately have hi: "x < 2 ^ nat (bitlen n)" by simp
    show ?thesis using lo hi L by (simp add: e power_int_nonneg_exp)
  next
    case False
    define y where "y = 1 / x"
    define n where "n = \<lceil>y\<rceil> - 1"
    have y: "1 < y" using False assms by (simp add: y_def)
    have n: "0 < n" using y by (simp add: n_def less_ceiling_iff)
    have e: "expo x = - bitlen n" using False by (simp add: expo_def n_def y_def)
    have L: "1 \<le> bitlen n" using n by (simp add: bitlen_alt_def)
    from bitlen_bounds[OF n] have b1: "2 ^ nat (bitlen n - 1) \<le> n" and b2: "n < 2 ^ nat (bitlen n)"
      by simp_all
    have "real_of_int (2 ^ nat (bitlen n - 1)) \<le> real_of_int n" using b1 by (simp only: of_int_le_iff)
    also have "real_of_int n < y" by (simp add: n_def) linarith
    finally have ylo: "2 ^ nat (bitlen n - 1) < y" by simp
    have "n + 1 \<le> 2 ^ nat (bitlen n)" using b2 by simp
    then have "real_of_int (n + 1) \<le> real_of_int (2 ^ nat (bitlen n))" by (simp only: of_int_le_iff)
    moreover have "y \<le> real_of_int (n + 1)" by (simp add: n_def)
    ultimately have yhi: "y \<le> 2 ^ nat (bitlen n)" by simp
    have x: "x = 1 / y" using assms by (simp add: y_def)
    have lo: "1 / 2 ^ nat (bitlen n) \<le> x"
      unfolding x using yhi y by (simp add: frac_le)
    have hi: "x < 1 / 2 ^ nat (bitlen n - 1)"
      unfolding x using ylo by (simp add: frac_less2)
    have p1: "(2::real) powi (- bitlen n) = 1 / 2 ^ nat (bitlen n)"
      using L by (simp add: power_int_def inverse_eq_divide power_one_over)
    have p2: "(2::real) powi (- bitlen n + 1) = 1 / 2 ^ nat (bitlen n - 1)"
    proof -
      have "- bitlen n + 1 = - (bitlen n - 1)" by simp
      then have "(2::real) powi (- bitlen n + 1) = inverse (2 powi (bitlen n - 1))"
        by (simp only: power_int_minus)
      then show ?thesis using L by (simp add: power_int_nonneg_exp inverse_eq_divide)
    qed
    show ?thesis using lo hi by (simp only: e p1 p2 simp_thms)
  qed
  then show "2 powi expo x \<le> x" and "x < 2 powi (expo x + 1)" by simp_all
qed

lemma pow2_less_imp:
  assumes "(2::real) powi a < 2 powi b"
  shows "a < b"
proof (rule ccontr)
  assume "\<not> a < b"
  then have "b \<le> a" by simp
  then have "(2::real) powi b \<le> 2 powi a" by (rule power_int_increasing) simp
  with assms show False by simp
qed

lemma expo_unique:
  assumes "0 < x" and "2 powi e \<le> x" and "x < 2 powi (e + 1)"
  shows "expo x = e"
proof -
  have "(2::real) powi e < 2 powi (expo x + 1)"
    using assms(2) expo_bounds(2)[OF assms(1)] by (rule le_less_trans)
  then have 1: "e < expo x + 1" by (rule pow2_less_imp)
  have "(2::real) powi expo x < 2 powi (e + 1)"
    using expo_bounds(1)[OF assms(1)] assms(3) by (rule le_less_trans)
  then have 2: "expo x < e + 1" by (rule pow2_less_imp)
  show ?thesis using 1 2 by simp
qed

lemma expo_mono:
  assumes "0 < x" and "x \<le> y"
  shows "expo x \<le> expo y"
proof -
  have y: "0 < y" using assms by simp
  have "(2::real) powi expo x \<le> x" using assms(1) by (rule expo_bounds)
  also have "x \<le> y" by fact
  also have "y < 2 powi (expo y + 1)" using y by (rule expo_bounds)
  finally have "expo x < expo y + 1" by (rule pow2_less_imp)
  then show ?thesis by simp
qed

lemma qexp_mono: "0 < x \<Longrightarrow> x \<le> y \<Longrightarrow> qexp x \<le> qexp y"
  using expo_mono[of x y] by (simp add: qexp_def)

lemma rne_of_int [simp]: "rne (real_of_int k) = k"
  by (simp add: rne_def)

lemma rne_le: "x \<le> real_of_int k \<Longrightarrow> rne x \<le> k"
proof -
  assume a: "x \<le> real_of_int k"
  have f: "\<lfloor>x\<rfloor> \<le> k" using floor_mono[OF a] by simp
  show ?thesis
  proof (cases "\<lfloor>x\<rfloor> = k")
    case True
    then have "x = real_of_int k" using a by (metis of_int_floor_le order_antisym)
    then show ?thesis by simp
  next
    case False
    then have "\<lfloor>x\<rfloor> + 1 \<le> k" using f by simp
    then show ?thesis by (simp add: rne_def Let_def)
  qed
qed

lemma rne_ge: "real_of_int k \<le> x \<Longrightarrow> k \<le> rne x"
proof -
  assume "real_of_int k \<le> x"
  then have "k \<le> \<lfloor>x\<rfloor>" by (simp add: le_floor_iff)
  then show ?thesis by (simp add: rne_def Let_def)
qed

lemma round_mag_nonneg: "0 \<le> round_mag x"
proof (cases "x \<le> 0")
  case True
  then show ?thesis by (simp add: round_mag_def)
next
  case False
  then have "0 \<le> x / 2 powi qexp x" by simp
  then have "real_of_int 0 \<le> x / 2 powi qexp x" by simp
  then have "0 \<le> rne (x / 2 powi qexp x)" by (rule rne_ge)
  then show ?thesis using False by (simp add: round_mag_def)
qed

lemma pow2_int: "0 \<le> k \<Longrightarrow> (2::real) powi k = real_of_int (2 ^ nat k)"
  by (simp add: power_int_nonneg_exp)

lemma round_mag_grid:
  assumes "0 < x" and "x = real_of_int j * 2 powi q" and "qexp x \<le> q"
  shows "round_mag x = x"
proof -
  have "x / 2 powi qexp x = real_of_int j * (2 powi q / 2 powi qexp x)"
    by (simp add: assms(2))
  also have "2 powi q / 2 powi qexp x = (2::real) powi (q - qexp x)"
    by (simp add: power_int_diff)
  also have "\<dots> = real_of_int (2 ^ nat (q - qexp x))"
    using assms(3) by (simp add: pow2_int)
  finally have "x / 2 powi qexp x = real_of_int (j * 2 ^ nat (q - qexp x))" by simp
  then have "real_of_int (rne (x / 2 powi qexp x)) = x / 2 powi qexp x"
    by (simp only: rne_of_int)
  then show ?thesis using assms(1) by (simp add: round_mag_def)
qed

lemma round_mag_fixed_grid:
  assumes "0 < c" and "round_mag c = c"
  shows "c = real_of_int (rne (c / 2 powi qexp c)) * 2 powi qexp c"
  using assms by (simp add: round_mag_def)

lemma round_mag_le:
  assumes "0 \<le> x" and "x \<le> c" and "round_mag c = c"
  shows "round_mag x \<le> c"
proof (cases "x = 0")
  case True
  then show ?thesis using assms by (simp add: round_mag_def)
next
  case False
  then have x: "0 < x" using assms(1) by simp
  then have c: "0 < c" using assms(2) by simp
  define k where "k = rne (c / 2 powi qexp c)"
  have ck: "c = real_of_int k * 2 powi qexp c"
    unfolding k_def using c assms(3) by (rule round_mag_fixed_grid)
  have q: "qexp x \<le> qexp c" using x assms(2) by (rule qexp_mono)
  have "c / 2 powi qexp x = real_of_int k * (2 powi qexp c / 2 powi qexp x)"
    by (subst ck) simp
  also have "2 powi qexp c / 2 powi qexp x = (2::real) powi (qexp c - qexp x)"
    by (simp add: power_int_diff)
  also have "\<dots> = real_of_int (2 ^ nat (qexp c - qexp x))" using q by (simp add: pow2_int)
  finally have cK: "c / 2 powi qexp x = real_of_int (k * 2 ^ nat (qexp c - qexp x))" by simp
  have "x / 2 powi qexp x \<le> c / 2 powi qexp x"
    using assms(2) by (simp add: divide_right_mono)
  then have "rne (x / 2 powi qexp x) \<le> k * 2 ^ nat (qexp c - qexp x)"
    unfolding cK by (rule rne_le)
  then have "real_of_int (rne (x / 2 powi qexp x)) \<le> real_of_int (k * 2 ^ nat (qexp c - qexp x))"
    by (simp only: of_int_le_iff)
  then have "real_of_int (rne (x / 2 powi qexp x)) \<le> c / 2 powi qexp x"
    by (simp only: cK)
  then have "real_of_int (rne (x / 2 powi qexp x)) * 2 powi qexp x \<le> c"
    by (simp add: pos_le_divide_eq)
  then show ?thesis using x by (simp add: round_mag_def)
qed

lemma pow2_shift:
  assumes "0 \<le> k" and "e = q + k"
  shows "(2::real) powi e = real_of_int (2 ^ nat k) * 2 powi q"
proof -
  have "(2::real) powi (k + q) = 2 powi k * 2 powi q" by (rule power_int_add) simp
  moreover have "(2::real) powi k = real_of_int (2 ^ nat k)" using assms(1) by (rule pow2_int)
  moreover have "e = k + q" using assms(2) by simp
  ultimately show ?thesis by (simp only:)
qed

lemma round_mag_ge:
  assumes "0 \<le> c" and "c \<le> x" and "round_mag c = c"
  shows "c \<le> round_mag x"
proof (cases "c = 0")
  case True
  then show ?thesis by (simp add: round_mag_nonneg)
next
  case False
  then have c: "0 < c" using assms(1) by simp
  then have x: "0 < x" using assms(2) by simp
  define k where "k = rne (c / 2 powi qexp c)"
  have ck: "c = real_of_int k * 2 powi qexp c"
    unfolding k_def using c assms(3) by (rule round_mag_fixed_grid)
  have q: "qexp c \<le> qexp x" using c assms(2) by (rule qexp_mono)
  show ?thesis
  proof (cases "qexp c = qexp x")
    case True
    have "c / 2 powi qexp x = real_of_int k" by (subst ck) (simp add: True)
    moreover have "c / 2 powi qexp x \<le> x / 2 powi qexp x"
      using assms(2) by (simp add: divide_right_mono)
    ultimately have "real_of_int k \<le> x / 2 powi qexp x" by simp
    then have "k \<le> rne (x / 2 powi qexp x)" by (rule rne_ge)
    then have "real_of_int k \<le> real_of_int (rne (x / 2 powi qexp x))" by (simp only: of_int_le_iff)
    then have "real_of_int k * 2 powi qexp x \<le> real_of_int (rne (x / 2 powi qexp x)) * 2 powi qexp x"
      by (simp add: mult_right_mono)
    then show ?thesis using x ck True by (simp add: round_mag_def)
  next
    case False
    then have lt: "qexp c < qexp x" using q by simp
    then have ex: "expo c < expo x" and big: "- 1022 < expo x" by (auto simp: qexp_def max_def split: if_splits)
    have qx: "qexp x = expo x - 52" using big by (simp add: qexp_def)
    have px: "(2::real) powi expo x = real_of_int (2 ^ nat 52) * 2 powi qexp x"
      by (rule pow2_shift) (simp_all add: qx)
    have "real_of_int (2 ^ nat 52) * 2 powi qexp x \<le> x"
      using expo_bounds(1)[OF x] by (simp only: px)
    then have "real_of_int (2 ^ nat 52) \<le> x / 2 powi qexp x"
      by (simp add: pos_le_divide_eq)
    then have "2 ^ nat 52 \<le> rne (x / 2 powi qexp x)" by (rule rne_ge)
    then have "real_of_int (2 ^ nat 52) \<le> real_of_int (rne (x / 2 powi qexp x))"
      by (simp only: of_int_le_iff)
    then have "real_of_int (2 ^ nat 52) * 2 powi qexp x
                 \<le> real_of_int (rne (x / 2 powi qexp x)) * 2 powi qexp x"
      by (rule mult_right_mono) simp
    moreover have rm: "round_mag x = real_of_int (rne (x / 2 powi qexp x)) * 2 powi qexp x"
      using x by (simp add: round_mag_def)
    ultimately have r: "2 powi expo x \<le> round_mag x" by (simp only: px rm)
    have "c < 2 powi (expo c + 1)" using c by (rule expo_bounds)
    also have "(2::real) powi (expo c + 1) \<le> 2 powi expo x"
      using ex by (intro power_int_increasing) simp_all
    finally show ?thesis using r by simp
  qed
qed

lemma round_mag_zero [simp]: "round_mag 0 = 0"
  by (simp add: round_mag_def)

lemma round_mag_idem: "round_mag (round_mag x) = round_mag x"
proof (cases "0 < x")
  case False
  then show ?thesis by (simp add: round_mag_def)
next
  case True
  define E where "E = max (expo x) (- 1022)"
  define q where "q = qexp x"
  define m where "m = rne (x / 2 powi q)"
  define y where "y = round_mag x"
  have q: "q = E - 52" by (simp add: q_def E_def qexp_def)
  have y: "y = real_of_int m * 2 powi q" using True by (simp add: y_def m_def q_def round_mag_def)
  have top: "(2::real) powi (E + 1) = real_of_int (2 ^ 53) * 2 powi q"
    using pow2_shift[of 53 "E + 1" q] by (simp add: q)
  have "x < 2 powi (expo x + 1)" using True by (rule expo_bounds)
  also have "(2::real) powi (expo x + 1) \<le> 2 powi (E + 1)"
    by (intro power_int_increasing) (simp_all add: E_def)
  finally have "x \<le> real_of_int (2 ^ 53) * 2 powi q" using top by simp
  then have "x / 2 powi q \<le> real_of_int (2 ^ 53)" by (simp add: pos_divide_le_eq)
  then have m53: "m \<le> 2 ^ 53" unfolding m_def by (rule rne_le)
  have m0: "0 \<le> m"
  proof -
    have "real_of_int 0 \<le> x / 2 powi q" using True by simp
    then show ?thesis unfolding m_def by (rule rne_ge)
  qed
  show ?thesis
  proof (cases "m = 0")
    case True
    then show ?thesis using y by (simp add: y_def[symmetric])
  next
    case False
    then have ypos: "0 < y" using m0 y by simp
    show ?thesis
    proof (cases "m = 2 ^ 53")
      case True
      then have yt: "y = 2 powi (E + 1)" using y top by simp
      have "expo y = E + 1"
      proof (rule expo_unique[OF ypos])
        show "2 powi (E + 1) \<le> y" using yt by simp
        show "y < 2 powi (E + 1 + 1)"
          unfolding yt by (rule power_int_strict_increasing) simp_all
      qed
      then have qy: "qexp y = q + 1" by (simp add: qexp_def q E_def)
      have "(2::real) powi (E + 1) = real_of_int (2 ^ 52) * 2 powi (q + 1)"
        using pow2_shift[of 52 "E + 1" "q + 1"] by (simp add: q)
      then have "y = real_of_int (2 ^ 52) * 2 powi (q + 1)" using yt by simp
      then have "round_mag y = y" using ypos qy by (intro round_mag_grid[where j = "2 ^ 52" and q = "q + 1"]) simp_all
      then show ?thesis by (simp add: y_def)
    next
      case False
      then have "m + 1 \<le> 2 ^ 53" using m53 by simp
      then have "real_of_int m < real_of_int (2 ^ 53)" by linarith
      then have "y < 2 powi (E + 1)" unfolding y top by (simp add: mult_strict_right_mono)
      then have "(2::real) powi expo y < 2 powi (E + 1)"
        using expo_bounds(1)[OF ypos] by simp
      then have "expo y < E + 1" by (rule pow2_less_imp)
      then have "qexp y \<le> q" by (simp add: qexp_def q E_def)
      then have "round_mag y = y" using ypos y by (intro round_mag_grid[where j = m and q = q])
      then show ?thesis by (simp add: y_def)
    qed
  qed
qed

lemma round_mag_int:
  assumes "0 \<le> n" and "n \<le> 2 ^ 53"
  shows "round_mag (real_of_int n) = real_of_int n"
proof (cases "n = 0")
  case True
  then show ?thesis by simp
next
  case False
  then have pos: "0 < real_of_int n" using assms(1) by simp
  show ?thesis
  proof (cases "n = 2 ^ 53")
    case True
    have x: "real_of_int n = 2 powi 53" using True by simp
    have "expo (real_of_int n) = 53"
    proof (rule expo_unique[OF pos])
      show "2 powi 53 \<le> real_of_int n" using x by simp
      show "real_of_int n < 2 powi (53 + 1)" using True by simp
    qed
    then have "qexp (real_of_int n) = 1" by (simp add: qexp_def)
    moreover have "real_of_int n = real_of_int (2 ^ 52) * 2 powi 1" using True by simp
    ultimately show ?thesis using pos by (intro round_mag_grid[where j = "2 ^ 52" and q = 1]) simp_all
  next
    case False
    then have "n + 1 \<le> 2 ^ 53" using assms(2) by simp
    then have "real_of_int n < real_of_int (2 ^ 53)" by linarith
    then have "real_of_int n < 2 powi 53" by simp
    then have "(2::real) powi expo (real_of_int n) < 2 powi 53"
      using expo_bounds(1)[OF pos] by simp
    then have "expo (real_of_int n) < 53" by (rule pow2_less_imp)
    then have "qexp (real_of_int n) \<le> 0" by (simp add: qexp_def)
    then show ?thesis using pos by (intro round_mag_grid[where j = n and q = 0]) simp_all
  qed
qed


text \<open>The unfolding rules that evaluate the float operations on concrete numbers.\<close>

lemmas f64_eval =
  f64_of_int_def rnd_def mk_def round_mag_def qexp_def expo_def compute_bitlen rne_def
  valof_def fsub_def fgt_def fge_def f64_1_def f64_1000_def f64_Second_def
  Seconds_def go_quot_def go_rem_def Sub_def minDuration_def maxDuration_def
  int64_of_float64_def truncate_toward_zero_def Let_def

section \<open>Signs and bounds\<close>

lemma pos_sign_mk: "pos_sign (mk False x)"
  by (simp add: mk_def pos_sign_def Let_def round_mag_nonneg)

lemma pos_sign_rnd: "0 \<le> r \<Longrightarrow> pos_sign (rnd False r)"
  by (simp add: rnd_def pos_sign_mk) (simp add: pos_sign_def)

lemma pos_sign_of_int: "0 \<le> i \<Longrightarrow> pos_sign (f64_of_int i)"
  by (simp add: f64_of_int_def pos_sign_rnd)

lemma pos_sign_cases:
  assumes "pos_sign x"
  obtains m where "x = Num False m" "0 \<le> m" | "x = Infty False"
  using assms by (cases x) (auto simp: pos_sign_def)

lemma pos_sign_Infty [simp]: "pos_sign (Infty False)"
  by (simp add: pos_sign_def)

lemma pos_sign_fadd:
  assumes "pos_sign a" and "pos_sign b"
  shows "pos_sign (fadd a b)"
  using assms(1)
proof (rule pos_sign_cases)
  fix m assume a: "a = Num False m" "0 \<le> m"
  show ?thesis using assms(2)
  proof (rule pos_sign_cases)
    fix n assume b: "b = Num False n" "0 \<le> n"
    show ?thesis using a(2) b(2) by (simp add: a(1) b(1) valof_def pos_sign_rnd)
  next
    assume "b = Infty False"
    then show ?thesis by (simp add: a(1))
  qed
next
  assume a: "a = Infty False"
  show ?thesis using assms(2)
    by (rule pos_sign_cases) (simp_all add: a)
qed

lemma pos_sign_fmul_rate:
  assumes "pos_sign a" and "positive_finite r"
  shows "pos_sign (fmul a r)"
proof -
  obtain n where r: "r = Num False n" "0 < n"
    using assms(2) by (cases r) (auto simp: positive_finite_def)
  show ?thesis using assms(1)
  proof (rule pos_sign_cases)
    fix m assume "a = Num False m" "0 \<le> m"
    then show ?thesis by (simp add: r(1) pos_sign_mk)
  next
    assume "a = Infty False"
    then show ?thesis using r(2) by (simp add: r(1))
  qed
qed

lemma pos_sign_fdiv_const:
  assumes "pos_sign a" and "0 < n"
  shows "pos_sign (fdiv a (Num False n))"
  using assms(1)
proof (rule pos_sign_cases)
  fix m assume "a = Num False m" "0 \<le> m"
  then show ?thesis using assms(2) by (simp add: pos_sign_mk)
next
  assume "a = Infty False"
  then show ?thesis by simp
qed

lemma go_quot_rem_nonneg:
  assumes "0 \<le> d"
  shows "0 \<le> go_quot d 1000000000" and "0 \<le> go_rem d 1000000000"
proof -
  show "0 \<le> go_quot d 1000000000" using assms by (simp add: go_quot_def pos_imp_zdiv_nonneg_iff)
  have "go_rem d 1000000000 = d mod 1000000000"
    using assms by (simp add: go_rem_def go_quot_def minus_mult_div_eq_mod)
  then show "0 \<le> go_rem d 1000000000" by simp
qed

lemma pos_sign_Seconds: "0 \<le> d \<Longrightarrow> pos_sign (Seconds d)"
  unfolding Seconds_def Let_def f64_Second_def
  by (intro pos_sign_fadd pos_sign_fdiv_const pos_sign_of_int go_quot_rem_nonneg) simp_all

lemma Sub_nonneg: "u \<le> t \<Longrightarrow> 0 \<le> Sub t u"
  by (simp add: Sub_def minDuration_def maxDuration_def)

lemma refill_fields [simp]:
  "capacity (refill b now) = capacity b"
  "refillRate (refill b now) = refillRate b"
  "lastRefillTime (refill b now) = now"
  by (simp_all add: refill_def Let_def)

lemma refill_tokens:
  "tokens (refill b now) =
     (if fgt (fadd (tokens b) (fmul (Seconds (Sub now (lastRefillTime b))) (refillRate b)))
             (f64_of_int (sint (capacity b)))
      then f64_of_int (sint (capacity b))
      else fadd (tokens b) (fmul (Seconds (Sub now (lastRefillTime b))) (refillRate b)))"
  by (simp add: refill_def Let_def)

lemma in_range_cases:
  assumes "in_range x c"
  obtains s m where "x = Num s m" "0 \<le> valof (Num s m)" "valof (Num s m) \<le> real_of_int c"
  using assms by (cases x) (auto simp: in_range_def)

lemma exact_capacity_fixed:
  assumes "exact_capacity c" and "0 < sint c"
  shows "round_mag (real_of_int (sint c)) = real_of_int (sint c)"
  using assms by (simp add: exact_capacity_def f64_of_int_def rnd_def mk_def Let_def split: if_splits)

lemma refill_sum_pos_sign:
  assumes "positive_finite (refillRate b)" and "nonneg_float (tokens b)"
    and "lastRefillTime b \<le> now"
  shows "pos_sign (fadd (tokens b) (fmul (Seconds (Sub now (lastRefillTime b))) (refillRate b)))"
proof -
  have add: "pos_sign (fmul (Seconds (Sub now (lastRefillTime b))) (refillRate b))"
    using assms by (intro pos_sign_fmul_rate pos_sign_Seconds Sub_nonneg)
  show ?thesis
  proof (cases "tokens b")
    case (Num s m)
    then have t: "0 \<le> valof (Num s m)" using assms(2) by (simp add: nonneg_float_def)
    show ?thesis using add
    proof (rule pos_sign_cases)
      fix n assume n: "fmul (Seconds (Sub now (lastRefillTime b))) (refillRate b) = Num False n" "0 \<le> n"
      have "0 \<le> valof (Num s m) + valof (Num False n)" using t n(2) by (simp add: valof_def)
      then show ?thesis unfolding Num n by (simp add: pos_sign_rnd)
    next
      assume "fmul (Seconds (Sub now (lastRefillTime b))) (refillRate b) = Infty False"
      then show ?thesis unfolding Num by simp
    qed
  next
    case (Infty s)
    then have s: "\<not> s" using assms(2) by (simp add: nonneg_float_def)
    show ?thesis using add
      by (rule pos_sign_cases) (simp_all add: Infty s)
  next
    case NaN
    then show ?thesis using assms(2) by (simp add: nonneg_float_def)
  qed
qed

lemma refill_caps:
  assumes "0 < sint (capacity b)" and "exact_capacity (capacity b)"
    and "positive_finite (refillRate b)" and "nonneg_float (tokens b)"
    and "lastRefillTime b \<le> now"
  shows "in_range (tokens (refill b now)) (sint (capacity b))"
proof -
  let ?sum = "fadd (tokens b) (fmul (Seconds (Sub now (lastRefillTime b))) (refillRate b))"
  let ?c = "sint (capacity b)"
  have cap: "f64_of_int ?c = Num False (real_of_int ?c)"
    using assms(2) by (simp add: exact_capacity_def)
  show ?thesis using refill_sum_pos_sign[OF assms(3,4,5)]
  proof (rule pos_sign_cases)
    fix m assume m: "?sum = Num False m" "0 \<le> m"
    show ?thesis using assms(1) m(2)
      by (simp add: refill_tokens m(1) cap fgt_def in_range_def valof_def)
  next
    assume "?sum = Infty False"
    then show ?thesis using assms(1)
      by (simp add: refill_tokens cap fgt_def in_range_def valof_def)
  qed
qed

lemma in_range_nonneg: "in_range x c \<Longrightarrow> nonneg_float x"
  by (erule in_range_cases) (simp add: nonneg_float_def)

lemma refill_inv:
  assumes "bucket_inv b" and "lastRefillTime b \<le> now"
  shows "bucket_inv (refill b now)"
proof -
  have "in_range (tokens (refill b now)) (sint (capacity b))"
    using assms by (intro refill_caps) (auto simp: bucket_inv_def intro: in_range_nonneg)
  then show ?thesis using assms(1) by (simp add: bucket_inv_def)
qed

lemma AllowN_inv:
  assumes "bucket_inv b" and "lastRefillTime b \<le> now" and "1 \<le> sint n"
  shows "bucket_inv (snd (AllowN b now n))"
proof -
  let ?r = "refill b now"
  let ?c = "sint (capacity b)"
  have r: "bucket_inv ?r" using assms(1,2) by (rule refill_inv)
  then obtain s m where t: "tokens ?r = Num s m" "0 \<le> valof (Num s m)"
      "valof (Num s m) \<le> real_of_int ?c"
    by (auto simp: bucket_inv_def elim: in_range_cases)
  have c: "0 < ?c" and fixed: "round_mag (real_of_int ?c) = real_of_int ?c"
    using assms(1) by (simp_all add: bucket_inv_def exact_capacity_fixed)
  have "pos_sign (f64_of_int (sint n))" using assms(3) by (intro pos_sign_of_int) simp
  then show ?thesis
  proof (rule pos_sign_cases)
    assume "f64_of_int (sint n) = Infty False"
    then show ?thesis using r by (simp add: AllowN_def Let_def t fge_def)
  next
    fix k assume k: "f64_of_int (sint n) = Num False k" "0 \<le> k"
    show ?thesis
    proof (cases "k \<le> valof (Num s m)")
      case False
      then show ?thesis using r by (simp add: AllowN_def Let_def t k fge_def valof_def)
    next
      case True
      let ?d = "valof (Num s m) - k"
      have d: "0 \<le> ?d" "?d \<le> real_of_int ?c" using True k(2) t(3) by simp_all
      have A: "snd (AllowN b now n) = ?r\<lparr>tokens := rnd s ?d\<rparr>"
        using True by (simp add: AllowN_def Let_def t k fge_def fsub_def valof_def)
      have "in_range (rnd s ?d) ?c"
      proof (cases "?d = 0")
        case True
        then show ?thesis using c by (simp add: rnd_def in_range_def valof_def)
      next
        case False
        have le: "round_mag ?d \<le> real_of_int ?c" using d fixed by (intro round_mag_le) simp_all
        have "real_of_int ?c < 2 ^ 63" using sint_lt[of "capacity b"] by simp
        also have "(2::real) ^ 63 \<le> 2 ^ 1024" by simp
        finally have "round_mag ?d < 2 ^ 1024" using le by simp
        then show ?thesis using False d(1) le
          by (simp add: rnd_def mk_def Let_def in_range_def valof_def round_mag_nonneg)
      qed
      then show ?thesis using r by (simp add: A bucket_inv_def)
    qed
  qed
qed

section \<open>The token invariant\<close>

lemma exact_capacity_small:
  assumes "0 < sint c" and "sint c \<le> 2 ^ 53"
  shows "exact_capacity c"
proof -
  have r: "round_mag (real_of_int (sint c)) = real_of_int (sint c)"
    using assms by (intro round_mag_int) simp_all
  have "real_of_int (sint c) \<le> real_of_int (2 ^ 53)" using assms(2) by (simp only: of_int_le_iff)
  also have "\<dots> < 2 ^ 1024" by simp
  finally have "real_of_int (sint c) < 2 ^ 1024" .
  then show ?thesis using assms(1) r
    by (simp add: exact_capacity_def f64_of_int_def rnd_def mk_def Let_def)
qed

lemma NewBucket_inv:
  assumes "NewBucket cap rate t0 = Inr b" and "exact_capacity cap"
    and "is_finite rate" and "is_float64 rate"
  shows "bucket_inv b" and "capacity b = cap" and "lastRefillTime b = t0"
proof -
  have b: "b = \<lparr>capacity = cap, tokens = f64_of_int (sint cap), refillRate = rate, lastRefillTime = t0\<rparr>"
    and pos: "0 < sint cap" and r: "\<not> fle rate (Num False 0)"
    using assms(1) by (auto simp: NewBucket_def split: if_splits)
  obtain s m where rate: "rate = Num s m" using assms(3) by (cases rate) (auto simp: is_finite_def)
  have m: "0 \<le> m" using assms(4) by (simp add: rate is_float64_def finite_ok_def)
  have pf: "positive_finite rate" using r m by (auto simp: rate positive_finite_def valof_def split: if_splits)
  have "in_range (f64_of_int (sint cap)) (sint cap)"
    using assms(2) pos by (simp add: exact_capacity_def in_range_def valof_def)
  then show "bucket_inv b" using pos assms(2) pf by (simp add: b bucket_inv_def)
  show "capacity b = cap" and "lastRefillTime b = t0" by (simp_all add: b)
qed

lemma apply_op_inv:
  assumes "bucket_inv b" "lastRefillTime b \<le> fst x" "positive_amount (snd x)"
  shows "bucket_inv (apply_op oor b x) \<and> lastRefillTime (apply_op oor b x) = fst x
         \<and> capacity (apply_op oor b x) = capacity b"
proof -
  obtain now op where x: "x = (now, op)" by (cases x)
  have r: "bucket_inv (refill b now)" using assms x by (simp add: refill_inv)
  show ?thesis
  proof (cases op)
    case OpAllow
    have "bucket_inv (snd (AllowN b now 1))" using assms x by (intro AllowN_inv) simp_all
    then show ?thesis using OpAllow x by (simp add: Allow_def) (simp add: AllowN_def Let_def)
  next
    case (OpAllowN n)
    have "bucket_inv (snd (AllowN b now n))" using assms x OpAllowN by (intro AllowN_inv) simp_all
    then show ?thesis using OpAllowN x by simp (simp add: AllowN_def Let_def)
  next
    case OpRemaining
    then show ?thesis using r x by (simp add: Remaining_def Let_def)
  next
    case OpRetryAfter
    then show ?thesis using r x by (simp add: RetryAfter_def Let_def)
  qed
qed

lemma trace_inv:
  "bucket_inv b \<Longrightarrow> sorted (lastRefillTime b # map fst ops) \<Longrightarrow>
   list_all (\<lambda>x. positive_amount (snd x)) ops \<Longrightarrow>
   \<forall>b' \<in> set (trace oor b ops). bucket_inv b' \<and> capacity b' = capacity b"
proof (induction ops arbitrary: b)
  case Nil
  then show ?case by simp
next
  case (Cons x xs)
  have st: "bucket_inv (apply_op oor b x) \<and> lastRefillTime (apply_op oor b x) = fst x
         \<and> capacity (apply_op oor b x) = capacity b"
    using Cons.prems by (intro apply_op_inv) auto
  have "sorted (lastRefillTime (apply_op oor b x) # map fst xs)"
    using Cons.prems(2) st by simp
  with Cons.IH[of "apply_op oor b x"] st Cons.prems(3)
  have "\<forall>b' \<in> set (trace oor (apply_op oor b x) xs). bucket_inv b' \<and> capacity b' = capacity b"
    by simp
  then show ?case using Cons.prems(1) by simp
qed

text \<open>
  Claim C1, as amended. A bucket built by \<^verbatim>\<open>NewBucket\<close> with a capacity that
  \<^verbatim>\<open>float64\<close> represents exactly (every capacity up to \<open>2 ^ 53\<close> is one, by
  \<open>exact_capacity_small\<close>) and a finite refill rate, and then driven by any sequence of
  \<^verbatim>\<open>Allow\<close>, \<^verbatim>\<open>AllowN(n)\<close> with \<open>n \<ge> 1\<close>, \<^verbatim>\<open>Remaining\<close> and
  \<^verbatim>\<open>RetryAfter\<close> calls whose clock readings never go back has, in every state it
  goes through, a finite token count with \<open>0 \<le> tokens \<le> capacity\<close>. No bound is put on
  the readings, so a refill after an idle period of any length stops at the capacity.
\<close>

theorem tokens_within_capacity:
  assumes "NewBucket cap rate t0 = Inr b"
    and "exact_capacity cap" and "is_finite rate" and "is_float64 rate"
    and "sorted (t0 # map fst ops)"
    and "list_all (\<lambda>x. positive_amount (snd x)) ops"
  shows "\<forall>b' \<in> set (trace oor b ops).
           in_range (tokens b') (sint (capacity b')) \<and> capacity b' = cap"
proof -
  have i: "bucket_inv b" and c: "capacity b = cap" and l: "lastRefillTime b = t0"
    using NewBucket_inv[OF assms(1-4)] by simp_all
  have "sorted (lastRefillTime b # map fst ops)" using assms(5) l by simp
  with i have "\<forall>b' \<in> set (trace oor b ops). bucket_inv b' \<and> capacity b' = capacity b"
    using assms(6) by (rule trace_inv)
  then show ?thesis using c by (auto simp: bucket_inv_def)
qed

text \<open>
  A run of the theorem: a bucket of capacity 2 is drained, read half a second later and
  read again after an idle period longer than the largest Duration.
\<close>

theorem tokens_within_capacity_witness:
  "NewBucket 2 (Num False 1) 0
     = Inr \<lparr>capacity = 2, tokens = Num False 2, refillRate = Num False 1, lastRefillTime = 0\<rparr> \<and>
   exact_capacity 2 \<and> is_finite (Num False 1) \<and> is_float64 (Num False 1) \<and>
   sorted (0 # map fst [(0::int, OpAllow), (0, OpAllowN 2), (500000000, OpRetryAfter),
       (9000000000000000000000, OpRemaining)]) \<and>
   list_all (\<lambda>b'. in_range (tokens b') (sint (capacity b')) \<and> capacity b' = 2)
     (trace oor_min \<lparr>capacity = 2, tokens = Num False 2, refillRate = Num False 1, lastRefillTime = 0\<rparr>
       [(0, OpAllow), (0, OpAllowN 2), (500000000, OpRetryAfter),
        (9000000000000000000000, OpRemaining)])"
proof -
  have 1: "NewBucket 2 (Num False 1) 0
     = Inr \<lparr>capacity = 2, tokens = Num False 2, refillRate = Num False 1, lastRefillTime = 0\<rparr>"
    by (simp add: NewBucket_def f64_eval)
  have 2: "exact_capacity 2" by (simp add: exact_capacity_def f64_eval)
  have 3: "is_finite (Num False 1)" by (simp add: is_finite_def)
  have 4: "is_float64 (Num False 1)" by (simp add: is_float64_def finite_ok_def f64_eval)
  have 5: "sorted (0 # map fst [(0::int, OpAllow), (0, OpAllowN 2), (500000000, OpRetryAfter),
       (9000000000000000000000, OpRemaining)])"
    by simp
  have 6: "list_all (\<lambda>x. positive_amount (snd x)) [(0::int, OpAllow), (0, OpAllowN 2),
       (500000000, OpRetryAfter), (9000000000000000000000, OpRemaining)]"
    by simp
  have "list_all (\<lambda>b'. in_range (tokens b') (sint (capacity b')) \<and> capacity b' = 2)
     (trace oor_min \<lparr>capacity = 2, tokens = Num False 2, refillRate = Num False 1, lastRefillTime = 0\<rparr>
       [(0, OpAllow), (0, OpAllowN 2), (500000000, OpRetryAfter),
        (9000000000000000000000, OpRemaining)])"
    unfolding list_all_iff by (rule tokens_within_capacity[OF 1 2 3 4 5 6])
  then show ?thesis using 1 2 3 4 5 by blast
qed

text \<open>
  Claim C1 as stated fails: the capacity \<open>2 ^ 53 + 3\<close> is not a \<^verbatim>\<open>float64\<close>, the
  new bucket holds \<^verbatim>\<open>float64(capacity)\<close> \<open>= 2 ^ 53 + 4\<close> tokens, and that is more
  than the capacity.
\<close>

theorem tokens_above_inexact_capacity:
  "NewBucket 9007199254740995 (Num False 1) 0
     = Inr \<lparr>capacity = 9007199254740995, tokens = Num False 9007199254740996,
            refillRate = Num False 1, lastRefillTime = 0\<rparr> \<and>
   sint (9007199254740995 :: 64 word) = 9007199254740995 \<and>
   \<not> in_range (Num False 9007199254740996) (sint (9007199254740995 :: 64 word))"
  by (simp add: NewBucket_def in_range_def f64_eval)

section \<open>Admission\<close>

lemma finite_ok_zero [simp]: "finite_ok 0"
  by (simp add: finite_ok_def)

lemma is_float64_mk [simp]: "is_float64 (mk s x)"
  by (simp add: mk_def Let_def is_float64_def finite_ok_def round_mag_nonneg round_mag_idem not_le)

lemma is_float64_rnd [simp]: "is_float64 (rnd z r)"
  by (simp add: rnd_def) (simp add: is_float64_def)

lemma is_float64_of_int [simp]: "is_float64 (f64_of_int i)"
  by (simp add: f64_of_int_def)

lemma is_float64_special [simp]: "is_float64 (Infty s)" "is_float64 NaN"
  by (simp_all add: is_float64_def)

lemma is_float64_fadd [simp]: "is_float64 (fadd a b)"
  by (cases a; cases b) simp_all

lemma is_float64_refill:
  "is_float64 (tokens (refill b now))"
  by (simp add: refill_tokens)

lemma f64_of_int_exact:
  assumes "0 \<le> i" and "i \<le> 2 ^ 53"
  shows "f64_of_int i = Num False (real_of_int i)"
proof -
  have r: "round_mag (real_of_int i) = real_of_int i" using assms by (rule round_mag_int)
  have "real_of_int i \<le> real_of_int (2 ^ 53)" using assms(2) by (simp only: of_int_le_iff)
  also have "\<dots> < 2 ^ 1024" by simp
  finally have "real_of_int i < 2 ^ 1024" .
  then show ?thesis using assms(1) r
    by (simp add: f64_of_int_def rnd_def mk_def Let_def)
qed





section \<open>Conversions of 64-bit integers\<close>

lemma sint_bounds: "- (2 ^ 63) \<le> sint (w :: 64 word)" "sint (w :: 64 word) < 2 ^ 63"
  using sint_ge[of w] sint_lt[of w] by simp_all

lemma round_mag_pow2: "round_mag (2 ^ k) = 2 ^ k"
proof -
  have x: "(2::real) ^ k = 2 powi int k" by simp
  have e: "expo (2 ^ k) = int k"
  proof (rule expo_unique)
    show "(0::real) < 2 ^ k" by simp
    show "2 powi int k \<le> (2::real) ^ k" by simp
    show "(2::real) ^ k < 2 powi (int k + 1)"
      unfolding x by (rule power_int_strict_increasing) simp_all
  qed
  have q: "qexp (2 ^ k) \<le> int k" by (simp add: qexp_def e)
  have g: "(2::real) ^ k = real_of_int 1 * 2 powi int k" by simp
  show ?thesis by (rule round_mag_grid[OF _ g q]) simp
qed

lemma f64_of_int_cases:
  assumes "- (2 ^ 63) \<le> i" and "i < 2 ^ 63"
  obtains m where "f64_of_int i = Num (i < 0) m" "0 \<le> m" "m \<le> 2 ^ 63" "i = 0 \<longleftrightarrow> m = 0"
proof -
  have a: "\<bar>real_of_int i\<bar> \<le> 2 ^ 63"
  proof -
    have "\<bar>i\<bar> \<le> 2 ^ 63" using assms by simp
    then have "real_of_int \<bar>i\<bar> \<le> real_of_int (2 ^ 63)" by (simp only: of_int_le_iff)
    then show ?thesis by simp
  qed
  have le: "round_mag \<bar>real_of_int i\<bar> \<le> 2 ^ 63"
    using a by (intro round_mag_le round_mag_pow2) simp_all
  have "(2::real) ^ 63 < 2 ^ 1024" by simp
  then have lt: "round_mag \<bar>real_of_int i\<bar> < 2 ^ 1024" using le by simp
  show ?thesis
  proof (cases "i = 0")
    case True
    show ?thesis by (rule that[of 0]) (simp_all add: True f64_of_int_def rnd_def)
  next
    case False
    have "1 \<le> \<bar>i\<bar>" using False by simp
    then have "real_of_int 1 \<le> real_of_int \<bar>i\<bar>" by (simp only: of_int_le_iff)
    then have "1 \<le> \<bar>real_of_int i\<bar>" by simp
    then have "1 \<le> round_mag \<bar>real_of_int i\<bar>"
      using round_mag_pow2[of 0] by (intro round_mag_ge) simp_all
    then show ?thesis using False lt le
      by (intro that[of "round_mag \<bar>real_of_int i\<bar>"])
         (simp_all add: f64_of_int_def rnd_def mk_def Let_def)
  qed
qed

lemma fmin_as_cap:
  assumes "is_float64 x" and "0 \<le> m" and "m = 0 \<longrightarrow> \<not> t"
  shows "fmin x (Num t m) = (if fgt x (Num t m) then Num t m else x)"
proof (cases x)
  case NaN
  then show ?thesis by (simp add: fmin_def fgt_def)
next
  case (Infty s)
  then show ?thesis by (cases s) (simp_all add: fmin_def fgt_def is_zero_def)
next
  case (Num s n)
  then have n: "0 \<le> n" using assms(1) by (simp add: is_float64_def finite_ok_def)
  show ?thesis
  proof (cases "n = 0 \<and> m = 0")
    case True
    then show ?thesis using assms(3)
      by (simp add: fmin_def Num fgt_def is_zero_def signbit_def valof_def)
  next
    case False
    then have nz: "\<not> (is_zero (Num s n) \<and> is_zero (Num t m))"
      by (simp add: is_zero_def)
    show ?thesis using False n assms(2)
      by (auto simp: fmin_def nz Num fgt_def valof_def split: if_splits)
  qed
qed

lemma fmin_capacity:
  assumes "is_float64 x"
  shows "fmin x (f64_of_int (sint (c :: 64 word)))
           = (if fgt x (f64_of_int (sint c)) then f64_of_int (sint c) else x)"
proof -
  obtain m where y: "f64_of_int (sint c) = Num (sint c < 0) m" "0 \<le> m" "sint c = 0 \<longleftrightarrow> m = 0"
    using f64_of_int_cases[OF sint_bounds] by metis
  have "m = 0 \<longrightarrow> \<not> sint c < 0" using y(3) by auto
  then show ?thesis unfolding y(1) using assms y(2) by (intro fmin_as_cap)
qed

section \<open>Construction\<close>

text \<open>
  Claim C3, as amended. \<^verbatim>\<open>NewBucket\<close> fails exactly when the capacity is not
  positive or the test \<^verbatim>\<open>refillRate <= 0\<close> holds: with the capacity error when the
  capacity is not positive, with the refill-rate error when only the rate fails. On
  success the bucket holds \<^verbatim>\<open>float64(capacity)\<close> tokens, which is the capacity itself
  whenever the capacity is at most \<open>2 ^ 53\<close>, and its refill time is the construction
  time. \<^verbatim>\<open>NewInMemoryStore\<close> fails in the same cases with the same errors.
\<close>

theorem NewBucket_validation:
  "(isl (NewBucket cap rate now) \<longleftrightarrow> sint cap \<le> 0 \<or> fle rate (Num False 0)) \<and>
   (sint cap \<le> 0 \<longrightarrow> NewBucket cap rate now = Inl ErrNegativeCapacity) \<and>
   (0 < sint cap \<and> fle rate (Num False 0) \<longrightarrow>
      NewBucket cap rate now = Inl ErrNegativeRefillRate) \<and>
   (0 < sint cap \<and> \<not> fle rate (Num False 0) \<longrightarrow>
      NewBucket cap rate now =
        Inr \<lparr>capacity = cap, tokens = f64_of_int (sint cap), refillRate = rate,
             lastRefillTime = now\<rparr>) \<and>
   (0 < sint cap \<and> sint cap \<le> 2 ^ 53 \<longrightarrow>
      f64_of_int (sint cap) = Num False (real_of_int (sint cap))) \<and>
   (isl (NewInMemoryStore cfg age now) \<longleftrightarrow>
      sint (cfg_Capacity cfg) \<le> 0 \<or> fle (cfg_RefillRate cfg) (Num False 0)) \<and>
   (\<forall>e. NewInMemoryStore cfg age now = Inl e \<longleftrightarrow>
        NewBucket (cfg_Capacity cfg) (cfg_RefillRate cfg) now = Inl e)"
proof -
  have "0 < sint cap \<and> sint cap \<le> 2 ^ 53 \<longrightarrow>
      f64_of_int (sint cap) = Num False (real_of_int (sint cap))"
    by (simp add: f64_of_int_exact)
  then show ?thesis by (simp add: NewBucket_def NewInMemoryStore_def)
qed

text \<open>The three outcomes of the bucket's constructor and the two failures of the store's.\<close>

theorem NewBucket_validation_witness:
  "NewBucket 0 (Num False 1) 7 = Inl ErrNegativeCapacity \<and>
   NewBucket 3 (Num False 0) 7 = Inl ErrNegativeRefillRate \<and>
   NewBucket 3 (Num False (1 / 2)) 7
     = Inr \<lparr>capacity = 3, tokens = Num False 3, refillRate = Num False (1 / 2), lastRefillTime = 7\<rparr> \<and>
   NewInMemoryStore \<lparr>cfg_Capacity = 0, cfg_RefillRate = Num False 1\<rparr> 5 7 = Inl ErrNegativeCapacity \<and>
   NewInMemoryStore \<lparr>cfg_Capacity = 3, cfg_RefillRate = Num True 2\<rparr> 5 7 = Inl ErrNegativeRefillRate"
  using NewBucket_validation[of 0 "Num False 1" 7 "\<lparr>cfg_Capacity = 0, cfg_RefillRate = Num False 1\<rparr>" 5]
        NewBucket_validation[of 3 "Num False 0" 7 "\<lparr>cfg_Capacity = 3, cfg_RefillRate = Num True 2\<rparr>" 5]
        NewBucket_validation[of 3 "Num False (1 / 2)" 7 "\<lparr>cfg_Capacity = 3, cfg_RefillRate = Num True 2\<rparr>" 5]
        NewBucket_validation[of 3 "Num True 2" 7 "\<lparr>cfg_Capacity = 3, cfg_RefillRate = Num True 2\<rparr>" 5]
  by (simp add: valof_def)

text \<open>
  Claim C3 as stated fails: with the capacity \<open>2 ^ 53 + 1\<close> the new bucket holds
  \<open>2 ^ 53\<close> tokens, one less than its capacity.
\<close>

theorem NewBucket_not_full:
  "NewBucket 9007199254740993 (Num False 1) 0
     = Inr \<lparr>capacity = 9007199254740993, tokens = Num False 9007199254740992,
            refillRate = Num False 1, lastRefillTime = 0\<rparr> \<and>
   sint (9007199254740993 :: 64 word) = 9007199254740993 \<and>
   valof (Num False 9007199254740992) < real_of_int (sint (9007199254740993 :: 64 word))"
  by (simp add: NewBucket_def f64_eval)

section \<open>The two package variants\<close>

lemma f64_of_int_one: "f64_of_int 1 = f64_1"
  by (simp add: f64_eval)

text \<open>
  Claim C9. For the same capacity, refill rate, tokens, refill time and clock reading,
  \<^verbatim>\<open>Bucket.Allow\<close> returns true exactly when the core package's
  \<^verbatim>\<open>TokenBucket.Check\<close> reports \<open>Allowed\<close>, and both leave the same state: the
  refilled tokens less one when allowed, the refilled tokens when denied.
\<close>

theorem Allow_matches_core_Check:
  "cr_Allowed (snd (Check oor (NewTokenBucket (core_config b)) (Some (core_state b)) now))
     = fst (Allow b now) \<and>
   fst (Check oor (NewTokenBucket (core_config b)) (Some (core_state b)) now)
     = core_state (snd (Allow b now)) \<and>
   tokens (snd (Allow b now))
     = (if fst (Allow b now) then fsub (tokens (refill b now)) f64_1 else tokens (refill b now))"
proof -
  let ?sum = "fadd (tokens b) (fmul (Seconds (Sub now (lastRefillTime b))) (refillRate b))"
  have m: "fmin ?sum (f64_of_int (sint (capacity b))) = tokens (refill b now)"
    by (simp add: fmin_capacity refill_tokens)
  have A: "Allow b now =
     (if fge (tokens (refill b now)) f64_1
      then (True, (refill b now)\<lparr>tokens := fsub (tokens (refill b now)) f64_1\<rparr>)
      else (False, refill b now))"
    by (simp add: Allow_def AllowN_def Let_def f64_of_int_one)
  have C: "Check oor (NewTokenBucket (core_config b)) (Some (core_state b)) now =
     (if fge (tokens (refill b now)) f64_1
      then (\<lparr>Tokens = fsub (tokens (refill b now)) f64_1, LastRefillAt = now\<rparr>,
            \<lparr>cr_Allowed = True, cr_Remaining = fsub (tokens (refill b now)) f64_1,
             RetryAfterMs = 0, cr_Limit = f64_of_int (sint (capacity b))\<rparr>)
      else (\<lparr>Tokens = tokens (refill b now), LastRefillAt = now\<rparr>,
            \<lparr>cr_Allowed = False, cr_Remaining = Num False 0,
             RetryAfterMs = int64_of_float64 oor
               (fceil (fmul (fdiv (fsub f64_1 (tokens (refill b now))) (refillRate b)) f64_1000)),
             cr_Limit = f64_of_int (sint (capacity b))\<rparr>))"
    unfolding Check_def NewTokenBucket_def core_config_def core_state_def
    by (simp add: Let_def m)
  show ?thesis unfolding A C by (simp add: core_state_def)
qed

text \<open>The same drained bucket seen by both variants, one second's worth of tokens later.\<close>

theorem Allow_matches_core_Check_witness:
  "cr_Allowed (snd (Check oor_min
      (NewTokenBucket \<lparr>core_Capacity = Num False 3, core_RefillPerSec = Num False 2\<rparr>)
      (Some \<lparr>Tokens = Num False 0, LastRefillAt = 0\<rparr>) 1000000000)) \<and>
   fst (Allow \<lparr>capacity = 3, tokens = Num False 0, refillRate = Num False 2,
               lastRefillTime = 0\<rparr> 1000000000) \<and>
   Tokens (fst (Check oor_min
      (NewTokenBucket \<lparr>core_Capacity = Num False 3, core_RefillPerSec = Num False 2\<rparr>)
      (Some \<lparr>Tokens = Num False 0, LastRefillAt = 0\<rparr>) 1000000000)) = Num False 1 \<and>
   tokens (snd (Allow \<lparr>capacity = 3, tokens = Num False 0, refillRate = Num False 2,
                       lastRefillTime = 0\<rparr> 1000000000)) = Num False 1"
proof -
  let ?b = "\<lparr>capacity = 3, tokens = Num False 0, refillRate = Num False 2, lastRefillTime = 0\<rparr>"
  have a: "Allow ?b 1000000000
             = (True, \<lparr>capacity = 3, tokens = Num False 1, refillRate = Num False 2,
                        lastRefillTime = 1000000000\<rparr>)"
    by (simp add: Allow_def AllowN_def refill_def f64_eval)
  have c: "core_config ?b = \<lparr>core_Capacity = Num False 3, core_RefillPerSec = Num False 2\<rparr>"
    by (simp add: core_config_def f64_eval)
  show ?thesis
    using Allow_matches_core_Check[of oor_min ?b 1000000000]
    by (simp add: a c core_state_def)
qed

section \<open>Amounts that are not positive\<close>

lemma valof_nonneg_fixed:
  assumes "finite_ok m" and "0 \<le> valof (Num s m)"
  shows "round_mag (valof (Num s m)) = valof (Num s m)"
  using assms by (auto simp: finite_ok_def valof_def split: if_splits)

lemma Num_of_nonneg:
  assumes "finite_ok m" and "0 < valof (Num s m)"
  shows "mk False (valof (Num s m)) = Num s m"
  using assms by (auto simp: finite_ok_def valof_def mk_def Let_def split: if_splits)

lemma fsub_nonpositive:
  assumes m: "finite_ok m" and v: "0 \<le> valof (Num s m)" "valof (Num s m) \<le> 2 ^ 63"
    and n: "sint (n :: 64 word) \<le> 0"
  shows "is_finite (fsub (Num s m) (f64_of_int (sint n)))"
    and "valof (Num s m) \<le> valof (fsub (Num s m) (f64_of_int (sint n)))"
    and "sint n = 0 \<Longrightarrow> fsub (Num s m) (f64_of_int (sint n)) = Num s m"
    and "fge (Num s m) (f64_of_int (sint n))"
proof -
  obtain k where fn: "f64_of_int (sint n) = Num (sint n < 0) k" "0 \<le> k" "k \<le> 2 ^ 63"
      "sint n = 0 \<longleftrightarrow> k = 0"
    using f64_of_int_cases[OF sint_bounds] by metis
  have vk: "valof (Num (\<not> sint n < 0) k) = k" using fn(4) n by (auto simp: valof_def)
  have vfn: "valof (Num (sint n < 0) k) \<le> 0" using fn(2,4) n by (auto simp: valof_def)
  show "fge (Num s m) (f64_of_int (sint n))" using vfn v(1) by (simp add: fn(1) fge_def)
  let ?r = "valof (Num s m) + k"
  have S: "fsub (Num s m) (f64_of_int (sint n)) = rnd (s \<and> \<not> sint n < 0) ?r"
    by (simp add: fsub_def fn(1) vk)
  have r0: "0 \<le> ?r" "valof (Num s m) \<le> ?r" using v(1) fn(2) by simp_all
  have "?r \<le> 2 ^ 63 + 2 ^ 63" using v(2) fn(3) by simp
  then have r64: "?r \<le> 2 ^ 64" by simp
  have le: "round_mag ?r \<le> 2 ^ 64" using r0(1) r64 by (intro round_mag_le round_mag_pow2)
  have "(2::real) ^ 64 < 2 ^ 1024" by simp
  then have lt: "round_mag ?r < 2 ^ 1024" using le by simp
  have ge: "valof (Num s m) \<le> round_mag ?r"
    using v(1) r0(2) valof_nonneg_fixed[OF m v(1)] by (intro round_mag_ge)
  have ab: "\<bar>?r\<bar> = ?r" using r0(1) by simp
  show "is_finite (fsub (Num s m) (f64_of_int (sint n)))"
    using lt by (simp add: S rnd_def mk_def Let_def is_finite_def ab)
  show "valof (Num s m) \<le> valof (fsub (Num s m) (f64_of_int (sint n)))"
  proof (cases "?r = 0")
    case True
    then have "valof (Num s m) = 0" using v(1) fn(2) by simp
    then show ?thesis using True by (simp add: S rnd_def) (simp add: valof_def)
  next
    case False
    then have "\<not> ?r < 0" "\<bar>?r\<bar> = ?r" using r0(1) by simp_all
    then show ?thesis using False lt ge by (simp add: S rnd_def mk_def Let_def) (simp add: valof_def)
  qed
  assume z: "sint n = 0"
  then have k0: "k = 0" using fn(4) by simp
  show "fsub (Num s m) (f64_of_int (sint n)) = Num s m"
  proof (cases "valof (Num s m) = 0")
    case True
    then have "m = 0" by (auto simp: valof_def split: if_splits)
    then show ?thesis using True z S by (simp add: k0 rnd_def)
  next
    case False
    then have p: "0 < valof (Num s m)" using v(1) by simp
    then have "\<not> valof (Num s m) < 0" "\<bar>valof (Num s m)\<bar> = valof (Num s m)" by simp_all
    then show ?thesis using False z S Num_of_nonneg[OF m p] by (simp add: k0 rnd_def)
  qed
qed

lemma fsub_nonpositive_exact:
  assumes v: "valof (Num s m) = real_of_int k" "0 \<le> k"
    and n: "sint (n :: 64 word) \<le> 0" "k - sint n \<le> 2 ^ 53"
  shows "valof (fsub (Num s m) (f64_of_int (sint n))) = real_of_int (k - sint n)"
proof -
  have a: "0 \<le> - sint n" "- sint n \<le> 2 ^ 53" using n v(2) by simp_all
  have fn: "f64_of_int (- sint n) = Num False (real_of_int (- sint n))"
    using a by (rule f64_of_int_exact)
  have neg: "fneg (f64_of_int (sint n)) = Num (\<not> sint n < 0) (real_of_int (- sint n))"
    using n(1) fn by (cases "sint n = 0") (simp_all add: f64_of_int_def rnd_def mk_def Let_def split: if_splits)
  have vneg: "valof (Num (\<not> sint n < 0) (- real_of_int (sint n))) = - real_of_int (sint n)"
    using n(1) by (auto simp: valof_def)
  have S: "fsub (Num s m) (f64_of_int (sint n))
             = rnd (s \<and> \<not> sint n < 0) (real_of_int (k - sint n))"
    unfolding fsub_def neg by (simp add: vneg v(1))
  have kk: "0 \<le> k - sint n" using v(2) n(1) by simp
  have ex: "f64_of_int (k - sint n) = Num False (real_of_int (k - sint n))"
    using kk n(2) by (rule f64_of_int_exact)
  show ?thesis
  proof (cases "k - sint n = 0")
    case True
    then show ?thesis by (simp add: S rnd_def) (simp add: valof_def)
  next
    case False
    then have "rnd (s \<and> \<not> sint n < 0) (real_of_int (k - sint n)) = f64_of_int (k - sint n)"
      by (simp add: rnd_def f64_of_int_def)
    then show ?thesis by (simp add: S ex) (simp add: valof_def)
  qed
qed

text \<open>
  Claim C10, as amended. On a valid bucket, called when the clock is not before the last
  refill, \<^verbatim>\<open>AllowN(n)\<close> with \<open>n \<le> 0\<close> returns true and sets the tokens to the
  float difference of the refilled tokens and \<^verbatim>\<open>float64(n)\<close>. With \<open>n = 0\<close> the tokens are unchanged. With a negative \<open>n\<close> the
  tokens stay finite and do not decrease; they grow by exactly \<open>|n|\<close> when the refilled
  tokens are a whole number \<open>k\<close> and \<open>k + |n| \<le> 2 ^ 53\<close>, so that a full bucket whose
  capacity is that small ends strictly above its capacity. Whatever the result, the next
  refill brings the tokens back between zero and the capacity.
\<close>

theorem AllowN_nonpositive:
  assumes "valid_bucket b" and "lastRefillTime b \<le> now" and "sint n \<le> 0"
  shows "fst (AllowN b now n) \<and>
         snd (AllowN b now n)
           = (refill b now)\<lparr>tokens := fsub (tokens (refill b now)) (f64_of_int (sint n))\<rparr> \<and>
         (sint n = 0 \<longrightarrow> snd (AllowN b now n) = refill b now) \<and>
         is_finite (tokens (snd (AllowN b now n))) \<and>
         valof (tokens (refill b now)) \<le> valof (tokens (snd (AllowN b now n))) \<and>
         (\<forall>k. valof (tokens (refill b now)) = real_of_int k \<and> k - sint n \<le> 2 ^ 53 \<longrightarrow>
              valof (tokens (snd (AllowN b now n))) = real_of_int (k - sint n)) \<and>
         (\<forall>now'. now \<le> now' \<longrightarrow>
              in_range (tokens (refill (snd (AllowN b now n)) now')) (sint (capacity b)))"
proof -
  let ?r = "refill b now"
  let ?c = "sint (capacity b)"
  let ?t' = "fsub (tokens ?r) (f64_of_int (sint n))"
  have inv: "bucket_inv b" using assms(1) by (simp add: valid_bucket_def)
  then have rinv: "bucket_inv ?r" using assms(2) by (rule refill_inv)
  then obtain s m where t: "tokens ?r = Num s m" "0 \<le> valof (Num s m)"
      "valof (Num s m) \<le> real_of_int ?c"
    by (auto simp: bucket_inv_def elim: in_range_cases)
  have "is_float64 (tokens ?r)" by (rule is_float64_refill)
  then have fm: "finite_ok m" by (simp add: t(1) is_float64_def)
  have "real_of_int ?c \<le> real_of_int (2 ^ 63)"
    using sint_bounds(2)[of "capacity b"] by (simp only: of_int_le_iff)
  then have v63: "valof (Num s m) \<le> 2 ^ 63" using t(3) by simp
  note F = fsub_nonpositive[OF fm t(2) v63 assms(3)]
  have A: "AllowN b now n = (True, ?r\<lparr>tokens := ?t'\<rparr>)"
    using F(4) by (simp add: AllowN_def Let_def t(1))
  have 1: "fst (AllowN b now n)" by (simp add: A)
  have 2: "snd (AllowN b now n) = ?r\<lparr>tokens := ?t'\<rparr>" by (simp add: A)
  have 3: "sint n = 0 \<longrightarrow> snd (AllowN b now n) = ?r"
    using F(3) by (simp add: A t(1)[symmetric])
  have 4: "is_finite (tokens (snd (AllowN b now n)))" using F(1) by (simp add: A t(1))
  have 5: "valof (tokens ?r) \<le> valof (tokens (snd (AllowN b now n)))"
    using F(2) by (simp add: A t(1))
  have 6: "\<forall>k. valof (tokens ?r) = real_of_int k \<and> k - sint n \<le> 2 ^ 53 \<longrightarrow>
              valof (tokens (snd (AllowN b now n))) = real_of_int (k - sint n)"
  proof (intro allI impI, elim conjE)
    fix k assume k: "valof (tokens ?r) = real_of_int k" "k - sint n \<le> 2 ^ 53"
    have "0 \<le> real_of_int k" using t(2) k(1) by (simp add: t(1))
    then have k0: "0 \<le> k" by simp
    have "valof (fsub (Num s m) (f64_of_int (sint n))) = real_of_int (k - sint n)"
      using k(1) k0 assms(3) k(2) unfolding t(1) by (rule fsub_nonpositive_exact)
    then show "valof (tokens (snd (AllowN b now n))) = real_of_int (k - sint n)"
      by (simp add: A t(1))
  qed
  have 7: "\<forall>now'. now \<le> now' \<longrightarrow>
              in_range (tokens (refill (snd (AllowN b now n)) now')) ?c"
  proof (intro allI impI)
    fix now' assume le: "now \<le> now'"
    let ?b' = "?r\<lparr>tokens := ?t'\<rparr>"
    have nn: "nonneg_float (tokens ?b')"
    proof -
      obtain z k where f: "?t' = Num z k" using F(1) unfolding t(1)
        by (cases "fsub (Num s m) (f64_of_int (sint n))") (auto simp: is_finite_def)
      have "0 \<le> valof ?t'" using F(2) t(2) by (simp add: t(1))
      then show ?thesis by (simp add: f nonneg_float_def)
    qed
    have "in_range (tokens (refill ?b' now')) (sint (capacity ?b'))"
      using rinv nn le by (intro refill_caps) (simp_all add: bucket_inv_def)
    then show "in_range (tokens (refill (snd (AllowN b now n)) now')) ?c" by (simp add: A)
  qed
  show ?thesis by (rule conjI[OF 1 conjI[OF 2 conjI[OF 3 conjI[OF 4 conjI[OF 5 conjI[OF 6 7]]]]]])
qed

text \<open>
  Claim C10 as stated fails: a full valid bucket of capacity \<open>2 ^ 53\<close> asked for
  \<open>- 1\<close> tokens keeps exactly its \<open>2 ^ 53\<close> tokens, since \<open>2 ^ 53 + 1\<close> is not a
  \<^verbatim>\<open>float64\<close>: the tokens neither change by 1 nor rise above the capacity.
\<close>

theorem AllowN_nonpositive_not_exact:
  "valid_bucket \<lparr>capacity = 9007199254740992, tokens = Num False 9007199254740992,
                 refillRate = Num False 1, lastRefillTime = 0\<rparr> \<and>
   AllowN \<lparr>capacity = 9007199254740992, tokens = Num False 9007199254740992,
           refillRate = Num False 1, lastRefillTime = 0\<rparr> 0 (- 1)
     = (True, \<lparr>capacity = 9007199254740992, tokens = Num False 9007199254740992,
                refillRate = Num False 1, lastRefillTime = 0\<rparr>)"
  by (simp add: valid_bucket_def bucket_inv_def exact_capacity_def positive_finite_def
        in_range_def is_float64_def finite_ok_def AllowN_def refill_def f64_eval)

text \<open>A full bucket of capacity 5 asked for \<open>- 2\<close> tokens holds 7, and at most 5 after a refill.\<close>

theorem AllowN_nonpositive_witness:
  "valid_bucket \<lparr>capacity = 5, tokens = Num False 5, refillRate = Num False 1, lastRefillTime = 0\<rparr> \<and>
   fst (AllowN \<lparr>capacity = 5, tokens = Num False 5, refillRate = Num False 1,
                lastRefillTime = 0\<rparr> 0 (- 2)) \<and>
   valof (tokens (snd (AllowN \<lparr>capacity = 5, tokens = Num False 5, refillRate = Num False 1,
                lastRefillTime = 0\<rparr> 0 (- 2)))) = 7 \<and>
   in_range (tokens (refill (snd (AllowN \<lparr>capacity = 5, tokens = Num False 5,
                refillRate = Num False 1, lastRefillTime = 0\<rparr> 0 (- 2))) 1)) 5"
proof -
  let ?b = "\<lparr>capacity = 5, tokens = Num False 5, refillRate = Num False 1, lastRefillTime = 0\<rparr>"
  have v: "valid_bucket ?b"
    by (simp add: valid_bucket_def bucket_inv_def exact_capacity_def positive_finite_def
          in_range_def is_float64_def finite_ok_def f64_eval)
  have l: "lastRefillTime ?b \<le> 0" by simp
  have n: "sint (- 2 :: 64 word) \<le> 0" by simp
  have r: "tokens (refill ?b 0) = Num False 5" by (simp add: refill_def f64_eval)
  have "valof (tokens (refill ?b 0)) = real_of_int 5 \<and> 5 - sint (- 2 :: 64 word) \<le> 2 ^ 53"
    by (simp add: r valof_def)
  then show ?thesis using v AllowN_nonpositive[OF v l n] by (simp add: r) fastforce
qed

section \<open>Retry delay\<close>

lemma pos_sign_fdiv_rate:
  assumes "pos_sign a" and "positive_finite r"
  shows "pos_sign (fdiv a r)"
proof -
  obtain n where r: "r = Num False n" "0 < n"
    using assms(2) by (cases r) (auto simp: positive_finite_def)
  show ?thesis unfolding r(1) using assms(1) r(2) by (rule pos_sign_fdiv_const)
qed

lemma int64_of_pos_sign:
  assumes "pos_sign x" and "is_finite x" and "\<lfloor>valof x\<rfloor> < 2 ^ 63"
  shows "int64_of_float64 oor x = \<lfloor>valof x\<rfloor>"
proof -
  obtain m where x: "x = Num False m" "0 \<le> m"
    using assms(1,2) by (cases x) (auto simp: pos_sign_def is_finite_def)
  have "(0::int) \<le> \<lfloor>m\<rfloor>" using x(2) by simp
  moreover have "- (2 ^ 63) \<le> (0::int)" by simp
  ultimately have "- (2 ^ 63) \<le> \<lfloor>m\<rfloor>" by (rule order_trans[rotated])
  then show ?thesis using assms(3) x(2)
    by (simp add: x(1) int64_of_float64_def truncate_toward_zero_def valof_def Let_def)
qed

lemma int64_of_fceil:
  assumes "pos_sign x" and "is_finite x" and "\<lceil>valof x\<rceil> < 2 ^ 63"
  shows "int64_of_float64 oor (fceil x) = \<lceil>valof x\<rceil>"
proof -
  obtain m where x: "x = Num False m" "0 \<le> m"
    using assms(1,2) by (cases x) (auto simp: pos_sign_def is_finite_def)
  have c: "0 \<le> \<lceil>m\<rceil>" using x(2) by (simp add: order_trans[OF _ le_of_int_ceiling])
  have f: "fceil x = Num False (real_of_int \<lceil>m\<rceil>)"
    using c by (simp add: x(1) fceil_def valof_def Let_def)
  have "pos_sign (Num False (real_of_int \<lceil>m\<rceil>))" using c by (simp add: pos_sign_def)
  moreover have "is_finite (Num False (real_of_int \<lceil>m\<rceil>))" by (simp add: is_finite_def)
  moreover have "\<lfloor>valof (Num False (real_of_int \<lceil>m\<rceil>))\<rfloor> < 2 ^ 63"
    using assms(3) by (simp add: x(1) valof_def)
  ultimately have "int64_of_float64 oor (Num False (real_of_int \<lceil>m\<rceil>))
                     = \<lfloor>valof (Num False (real_of_int \<lceil>m\<rceil>))\<rfloor>"
    by (rule int64_of_pos_sign)
  then show ?thesis unfolding f by (simp add: x(1) valof_def)
qed

lemma tokens_needed_pos_sign:
  assumes "in_range t c" and "\<not> fge t f64_1"
  shows "pos_sign (fsub f64_1 t)"
proof -
  obtain s m where t: "t = Num s m" "0 \<le> valof (Num s m)"
    using assms(1) by (rule in_range_cases)
  have "valof (Num s m) < 1" using assms(2) by (simp add: t(1) fge_def f64_1_def valof_def)
  then have d: "0 < 1 - valof (Num s m)" by simp
  have v: "valof (Num (\<not> s) m) = - valof (Num s m)" by (simp add: valof_def)
  have "fsub f64_1 t = mk False (1 - valof (Num s m))"
    using d by (simp add: fsub_def f64_1_def t(1) v rnd_def) (simp add: valof_def)
  then show ?thesis by (simp add: pos_sign_mk)
qed

lemma Check_denied:
  "\<not> fge (tokens (refill b now)) f64_1 \<Longrightarrow>
   RetryAfterMs (snd (Check oor (NewTokenBucket (core_config b)) (Some (core_state b)) now))
     = int64_of_float64 oor
         (fceil (fmul (fdiv (fsub f64_1 (tokens (refill b now))) (refillRate b)) f64_1000))"
proof -
  assume d: "\<not> fge (tokens (refill b now)) f64_1"
  let ?sum = "fadd (tokens b) (fmul (Seconds (Sub now (lastRefillTime b))) (refillRate b))"
  have m: "fmin ?sum (f64_of_int (sint (capacity b))) = tokens (refill b now)"
    by (simp add: fmin_capacity refill_tokens)
  show ?thesis using d
    unfolding Check_def NewTokenBucket_def core_config_def core_state_def
    by (simp add: Let_def m)
qed

text \<open>
  Claim C4, as amended. On a valid bucket, called when the clock is not before the last
  refill, \<^verbatim>\<open>RetryAfter()\<close> first refills. If the refilled tokens are at least 1 it
  returns a zero duration. Otherwise it computes
  \<open>((1 - tokens) / refillRate) * 1e9\<close> in \<^verbatim>\<open>float64\<close> arithmetic, each operation
  rounded to the nearest float, and returns that value, which is never negative, with its
  fraction cut off, as a count of nanoseconds, provided the value is finite and below
  \<open>2 ^ 63\<close> (otherwise the result of the conversion is left to the implementation); it
  does not round up to milliseconds. What rounds up to milliseconds is the core package's
  \<^verbatim>\<open>TokenBucket.Check\<close>: for the same state its \<open>RetryAfterMs\<close> is the ceiling of the
  \<^verbatim>\<open>float64\<close> value \<open>((1 - tokens) / refillRate) * 1000\<close>, under the same proviso.
\<close>

theorem RetryAfter_nanoseconds:
  assumes "valid_bucket b" and "lastRefillTime b \<le> now"
  shows
   "snd (RetryAfter oor b now) = refill b now \<and>
    (fge (tokens (refill b now)) f64_1 \<longleftrightarrow> 1 \<le> valof (tokens (refill b now))) \<and>
    (fge (tokens (refill b now)) f64_1 \<longrightarrow> fst (RetryAfter oor b now) = 0) \<and>
    (\<not> fge (tokens (refill b now)) f64_1 \<longrightarrow>
       (let ns = fmul (fdiv (fsub f64_1 (tokens (refill b now))) (refillRate b)) f64_Second;
            ms = fmul (fdiv (fsub f64_1 (tokens (refill b now))) (refillRate b)) f64_1000
        in fst (RetryAfter oor b now) = int64_of_float64 oor ns \<and>
           pos_sign ns \<and>
           (is_finite ns \<and> \<lfloor>valof ns\<rfloor> < 2 ^ 63 \<longrightarrow>
              fst (RetryAfter oor b now) = \<lfloor>valof ns\<rfloor>) \<and>
           RetryAfterMs (snd (Check oor (NewTokenBucket (core_config b))
                                 (Some (core_state b)) now))
             = int64_of_float64 oor (fceil ms) \<and>
           pos_sign ms \<and>
           (is_finite ms \<and> \<lceil>valof ms\<rceil> < 2 ^ 63 \<longrightarrow>
              RetryAfterMs (snd (Check oor (NewTokenBucket (core_config b))
                                    (Some (core_state b)) now))
                = \<lceil>valof ms\<rceil>)))"
proof -
  let ?r = "refill b now"
  let ?q = "fdiv (fsub f64_1 (tokens ?r)) (refillRate b)"
  have inv: "bucket_inv b" using assms(1) by (simp add: valid_bucket_def)
  then have rinv: "bucket_inv ?r" using assms(2) by (rule refill_inv)
  then have ir: "in_range (tokens ?r) (sint (capacity b))" and pr: "positive_finite (refillRate b)"
    by (simp_all add: bucket_inv_def)
  have 1: "snd (RetryAfter oor b now) = ?r" by (simp add: RetryAfter_def Let_def)
  have 2: "fge (tokens ?r) f64_1 \<longleftrightarrow> 1 \<le> valof (tokens ?r)"
    using ir by (rule in_range_cases) (simp add: fge_def f64_1_def valof_def)
  have 3: "fge (tokens ?r) f64_1 \<longrightarrow> fst (RetryAfter oor b now) = 0"
    by (simp add: RetryAfter_def Let_def)
  have 4: "let ns = fmul ?q f64_Second; ms = fmul ?q f64_1000
        in fst (RetryAfter oor b now) = int64_of_float64 oor ns \<and>
           pos_sign ns \<and>
           (is_finite ns \<and> \<lfloor>valof ns\<rfloor> < 2 ^ 63 \<longrightarrow>
              fst (RetryAfter oor b now) = \<lfloor>valof ns\<rfloor>) \<and>
           RetryAfterMs (snd (Check oor (NewTokenBucket (core_config b))
                                 (Some (core_state b)) now))
             = int64_of_float64 oor (fceil ms) \<and>
           pos_sign ms \<and>
           (is_finite ms \<and> \<lceil>valof ms\<rceil> < 2 ^ 63 \<longrightarrow>
              RetryAfterMs (snd (Check oor (NewTokenBucket (core_config b))
                                    (Some (core_state b)) now))
                = \<lceil>valof ms\<rceil>)"
    if d: "\<not> fge (tokens ?r) f64_1"
  proof -
    have q: "pos_sign ?q"
      using ir d pr by (intro pos_sign_fdiv_rate tokens_needed_pos_sign)
    have ns: "pos_sign (fmul ?q f64_Second)"
      using q by (rule pos_sign_fmul_rate) (simp add: f64_Second_def positive_finite_def)
    have ms: "pos_sign (fmul ?q f64_1000)"
      using q by (rule pos_sign_fmul_rate) (simp add: f64_1000_def positive_finite_def)
    have R: "fst (RetryAfter oor b now) = int64_of_float64 oor (fmul ?q f64_Second)"
      using d by (simp add: RetryAfter_def Let_def)
    have C: "RetryAfterMs (snd (Check oor (NewTokenBucket (core_config b))
                                 (Some (core_state b)) now))
               = int64_of_float64 oor (fceil (fmul ?q f64_1000))"
      using d by (rule Check_denied)
    show ?thesis
      unfolding Let_def R C
      using ns ms int64_of_pos_sign[OF ns, of oor] int64_of_fceil[OF ms, of oor] by blast
  qed
  have 5: "\<not> fge (tokens ?r) f64_1 \<longrightarrow>
       (let ns = fmul ?q f64_Second; ms = fmul ?q f64_1000
        in fst (RetryAfter oor b now) = int64_of_float64 oor ns \<and>
           pos_sign ns \<and>
           (is_finite ns \<and> \<lfloor>valof ns\<rfloor> < 2 ^ 63 \<longrightarrow>
              fst (RetryAfter oor b now) = \<lfloor>valof ns\<rfloor>) \<and>
           RetryAfterMs (snd (Check oor (NewTokenBucket (core_config b))
                                 (Some (core_state b)) now))
             = int64_of_float64 oor (fceil ms) \<and>
           pos_sign ms \<and>
           (is_finite ms \<and> \<lceil>valof ms\<rceil> < 2 ^ 63 \<longrightarrow>
              RetryAfterMs (snd (Check oor (NewTokenBucket (core_config b))
                                    (Some (core_state b)) now))
                = \<lceil>valof ms\<rceil>))"
    using 4 by (rule impI)
  show ?thesis by (rule conjI[OF 1 conjI[OF 2 conjI[OF 3 5]]])
qed

text \<open>
  Claim C4 as stated fails: a bucket of capacity 1 refilled at 3 tokens per second, just
  drained by \<^verbatim>\<open>Allow()\<close>, answers 333333333 nanoseconds, not the 334 milliseconds
  of the claim's formula.
\<close>

theorem RetryAfter_not_ceil_milliseconds:
  "valid_bucket \<lparr>capacity = 1, tokens = Num False 0, refillRate = Num False 3, lastRefillTime = 0\<rparr> \<and>
   snd (Allow \<lparr>capacity = 1, tokens = Num False 1, refillRate = Num False 3, lastRefillTime = 0\<rparr> 0)
     = \<lparr>capacity = 1, tokens = Num False 0, refillRate = Num False 3, lastRefillTime = 0\<rparr> \<and>
   fst (RetryAfter oor_min \<lparr>capacity = 1, tokens = Num False 0, refillRate = Num False 3,
                            lastRefillTime = 0\<rparr> 0)
     = 333333333 \<and>
   \<lceil>(1 - 0) / 3 * 1000 :: real\<rceil> = 334 \<and>
   fst (RetryAfter oor_min \<lparr>capacity = 1, tokens = Num False 0, refillRate = Num False 3,
                            lastRefillTime = 0\<rparr> 0)
     \<noteq> \<lceil>(1 - 0) / 3 * 1000 :: real\<rceil> * 1000000"
  by (simp add: valid_bucket_def bucket_inv_def exact_capacity_def positive_finite_def
        in_range_def is_float64_def finite_ok_def Allow_def AllowN_def RetryAfter_def refill_def
        f64_eval)


text \<open>
  A bucket of capacity 1 refilled at 1 token per second and drained at time 0: 68 ms later
  \<^verbatim>\<open>RetryAfter()\<close> answers 931999999 ns (the exact quotient would be 932000000), and
  59 ms after the draining the core variant answers 942 ms (the exact ceiling would be
  941). A full bucket answers zero.
\<close>

theorem RetryAfter_nanoseconds_witness:
  "valid_bucket \<lparr>capacity = 1, tokens = Num False 0, refillRate = Num False 1, lastRefillTime = 0\<rparr> \<and>
   fst (RetryAfter oor_min \<lparr>capacity = 1, tokens = Num False 0, refillRate = Num False 1,
                            lastRefillTime = 0\<rparr> 68000000)
     = 931999999 \<and>
   RetryAfterMs (snd (Check oor_min
      (NewTokenBucket \<lparr>core_Capacity = Num False 1, core_RefillPerSec = Num False 1\<rparr>)
      (Some \<lparr>Tokens = Num False 0, LastRefillAt = 0\<rparr>) 59000000)) = 942 \<and>
   fst (RetryAfter oor_min \<lparr>capacity = 1, tokens = Num False 1, refillRate = Num False 1,
                            lastRefillTime = 0\<rparr> 0) = 0"
proof -
  let ?b = "\<lparr>capacity = 1, tokens = Num False 0, refillRate = Num False 1, lastRefillTime = 0\<rparr>"
  let ?f = "\<lparr>capacity = 1, tokens = Num False 1, refillRate = Num False 1, lastRefillTime = 0\<rparr>"
  have v: "valid_bucket ?b" and vf: "valid_bucket ?f"
    by (simp_all add: valid_bucket_def bucket_inv_def exact_capacity_def positive_finite_def
          in_range_def is_float64_def finite_ok_def f64_eval)
  have la: "lastRefillTime ?b \<le> 68000000" and lc: "lastRefillTime ?b \<le> 59000000"
    and lf: "lastRefillTime ?f \<le> 0" by simp_all
  have c: "core_config ?b = \<lparr>core_Capacity = Num False 1, core_RefillPerSec = Num False 1\<rparr>"
    by (simp add: core_config_def f64_eval)
  have 1: "fst (RetryAfter oor_min ?b 68000000) = 931999999"
    using RetryAfter_nanoseconds[OF v la, of oor_min]
    by (simp add: refill_def is_finite_def pos_sign_def f64_eval)
  have 2: "RetryAfterMs (snd (Check oor_min (NewTokenBucket (core_config ?b))
                                 (Some (core_state ?b)) 59000000)) = 942"
    using RetryAfter_nanoseconds[OF v lc, of oor_min]
    by (simp add: refill_def is_finite_def pos_sign_def f64_eval)
  have 3: "fst (RetryAfter oor_min ?f 0) = 0"
    using RetryAfter_nanoseconds[OF vf lf, of oor_min]
    by (simp add: refill_def f64_eval)
  show ?thesis using v 1 2 3 by (simp add: c core_state_def)
qed

section \<open>The store's map\<close>

lemma length_update_present:
  "map_of al k = Some v \<Longrightarrow> length (AList.update k v' al) = length al"
  by (induction al) (auto split: if_splits)

lemma length_update_absent:
  "map_of al k = None \<Longrightarrow> AList.update k v al = al @ [(k, v)]"
  by (induction al) (auto split: if_splits)

lemma cleanup_loop_eq:
  "cleanup_loop cutoff es m r =
     (filter (\<lambda>(k, e). k \<notin> fst ` {x \<in> set es. Before (lastAccessed (snd x)) cutoff}) m,
      r + length (filter (\<lambda>(k, e). Before (lastAccessed e) cutoff) es))"
proof (induction es arbitrary: m r)
  case Nil
  then show ?case by simp
next
  case (Cons x es)
  obtain key entry where x: "x = (key, entry)" by (cases x)
  show ?case
  proof (cases "Before (lastAccessed entry) cutoff")
    case True
    have "filter (\<lambda>(k, e). k \<notin> fst ` {x \<in> set es. Before (lastAccessed (snd x)) cutoff})
            (AList.delete key m)
          = filter (\<lambda>(k, e). k \<notin> fst ` {x \<in> set ((key, entry) # es).
                Before (lastAccessed (snd x)) cutoff}) m"
    proof -
      have S: "{x \<in> set ((key, entry) # es). Before (lastAccessed (snd x)) cutoff}
               = insert (key, entry) {x \<in> set es. Before (lastAccessed (snd x)) cutoff}"
        using True by auto
      show ?thesis
        unfolding S AList.delete_eq filter_filter
        by (rule filter_cong) auto
    qed
    then show ?thesis using True x Cons.IH[of "AList.delete key m" "r + 1"] by simp
  next
    case False
    have "{x \<in> set ((key, entry) # es). Before (lastAccessed (snd x)) cutoff}
          = {x \<in> set es. Before (lastAccessed (snd x)) cutoff}"
      using False by auto
    then show ?thesis using False x Cons.IH[of m r] by simp
  qed
qed

lemma cleanup_loop_distinct:
  assumes "distinct (map fst es)"
  shows "cleanup_loop cutoff es es 0 =
     (filter (\<lambda>(k, e). \<not> Before (lastAccessed e) cutoff) es,
      length (filter (\<lambda>(k, e). Before (lastAccessed e) cutoff) es))"
proof -
  have "filter (\<lambda>(k, e). k \<notin> fst ` {x \<in> set es. Before (lastAccessed (snd x)) cutoff}) es
        = filter (\<lambda>(k, e). \<not> Before (lastAccessed e) cutoff) es"
  proof (rule filter_cong[OF refl])
    fix x assume xin: "x \<in> set es"
    obtain k e where x: "x = (k, e)" by (cases x)
    have "k \<in> fst ` {x \<in> set es. Before (lastAccessed (snd x)) cutoff}
          \<longleftrightarrow> Before (lastAccessed e) cutoff"
    proof
      assume "k \<in> fst ` {x \<in> set es. Before (lastAccessed (snd x)) cutoff}"
      then obtain e' where e': "(k, e') \<in> set es" "Before (lastAccessed e') cutoff" by auto
      have "e' = e" using assms e'(1) xin x by (meson eq_key_imp_eq_value)
      then show "Before (lastAccessed e) cutoff" using e'(2) by simp
    next
      assume "Before (lastAccessed e) cutoff"
      then show "k \<in> fst ` {x \<in> set es. Before (lastAccessed (snd x)) cutoff}"
        using xin x by force
    qed
    then show "(case x of (k, e) \<Rightarrow> k \<notin> fst ` {x \<in> set es. Before (lastAccessed (snd x)) cutoff})
             = (case x of (k, e) \<Rightarrow> \<not> Before (lastAccessed e) cutoff)"
      using x by simp
  qed
  then show ?thesis by (simp add: cleanup_loop_eq)
qed

lemma neg64_exact: "- (2 ^ 63) < d \<Longrightarrow> neg64 d = - d"
  by (simp add: neg64_def)

section \<open>Lookup and creation\<close>

lemma GetBucket_existing:
  assumes "key \<noteq> []" and "map_of (buckets (store w)) key = Some e"
  shows "GetBucket w key tc ta =
     (Inr (bucket e),
      w\<lparr>store := (store w)\<lparr>buckets :=
           AList.update key (e\<lparr>lastAccessed := ta\<rparr>) (buckets (store w))\<rparr>\<rparr>)"
  using assms by (simp add: GetBucket_def touch_def)

lemma GetBucket_new:
  assumes "key \<noteq> []" and "map_of (buckets (store w)) key = None"
    and "valid_config (store_config (store w))"
  shows "GetBucket w key tc ta =
     (Inr (length (heap w)),
      \<lparr>heap = heap w @ [\<lparr>capacity = cfg_Capacity (store_config (store w)),
                         tokens = f64_of_int (sint (cfg_Capacity (store_config (store w)))),
                         refillRate = cfg_RefillRate (store_config (store w)),
                         lastRefillTime = tc\<rparr>],
       store = (store w)\<lparr>buckets :=
                 buckets (store w) @ [(key, \<lparr>bucket = length (heap w), lastAccessed = ta\<rparr>)]\<rparr>\<rparr>)"
  using assms
  by (simp add: GetBucket_def NewBucket_def valid_config_def length_update_absent)

lemma map_of_bucket_bound:
  "list_all (\<lambda>(k, e). bucket e < n) al \<Longrightarrow> map_of al key = Some e \<Longrightarrow> bucket e < n"
  by (induction al) (auto split: if_splits)

lemma GetBucket_succeeds:
  assumes "wf_world w" and "key \<noteq> []"
  shows "\<exists>a w1. GetBucket w key tc ta = (Inr a, w1) \<and> a < length (heap w1) \<and>
           (\<exists>e. map_of (buckets (store w1)) key = Some e \<and> bucket e = a) \<and>
           (map_of (buckets (store w)) key = None \<longrightarrow>
              a = length (heap w) \<and> heap w1 ! a =
                \<lparr>capacity = cfg_Capacity (store_config (store w)),
                 tokens = f64_of_int (sint (cfg_Capacity (store_config (store w)))),
                 refillRate = cfg_RefillRate (store_config (store w)),
                 lastRefillTime = tc\<rparr>) \<and>
           (map_of (buckets (store w)) key \<noteq> None \<longrightarrow> heap w1 = heap w)"
proof (cases "map_of (buckets (store w)) key")
  case None
  have "valid_config (store_config (store w))" using assms(1) by (simp add: wf_world_def)
  from GetBucket_new[OF assms(2) None this, of tc ta] None show ?thesis
    by (simp add: nth_append map_add_def)
next
  case (Some e)
  have "bucket e < length (heap w)"
    using assms(1) Some by (auto simp: wf_world_def intro: map_of_bucket_bound)
  with GetBucket_existing[OF assms(2) Some, of tc ta] Some show ?thesis
    by (simp add: update_conv')
qed

text \<open>
  Claim C7. In a well-formed store two successive \<^verbatim>\<open>GetBucket(k)\<close> calls for a
  non-empty key, with no \<^verbatim>\<open>Cleanup\<close> between them, return the same reference. The
  second call leaves every bucket as it finds it, whatever the holders of references have
  done to the buckets (the heap \<open>h\<close>) since the first call, and it does not change the
  number of entries.
\<close>

theorem GetBucket_idempotent:
  assumes "wf_world w" and "key \<noteq> []"
  shows "\<exists>a w1 w2. GetBucket w key tc ta = (Inr a, w1) \<and> a < length (heap w1) \<and>
           GetBucket (w1\<lparr>heap := h\<rparr>) key tc' ta' = (Inr a, w2) \<and>
           heap w2 = h \<and>
           Count (store w2) = Count (store w1)"
proof -
  obtain a w1 e where g: "GetBucket w key tc ta = (Inr a, w1)" "a < length (heap w1)"
    and e: "map_of (buckets (store w1)) key = Some e" "bucket e = a"
    using GetBucket_succeeds[OF assms, of tc ta] by blast
  have e': "map_of (buckets (store (w1\<lparr>heap := h\<rparr>))) key = Some e" using e by simp
  show ?thesis
    using g e GetBucket_existing[OF assms(2) e', of tc' ta']
    by (simp add: Count_def length_update_present)
qed

text \<open>
  An empty store: the first call creates bucket 0, a client takes a token from it, and the
  second call returns bucket 0 with the client's state intact and one entry in the store.
\<close>

theorem GetBucket_idempotent_witness:
  "wf_world \<lparr>heap = [], store = \<lparr>buckets = [], store_config = \<lparr>cfg_Capacity = 3, cfg_RefillRate = Num False 1\<rparr>,
                                     cleanupAge = 0, lastCleanup = 0\<rparr>\<rparr> \<and>
   GetBucket \<lparr>heap = [], store = \<lparr>buckets = [], store_config = \<lparr>cfg_Capacity = 3, cfg_RefillRate = Num False 1\<rparr>,
                                     cleanupAge = 0, lastCleanup = 0\<rparr>\<rparr> ''k'' 0 0
     = (Inr 0,
        \<lparr>heap = [\<lparr>capacity = 3, tokens = Num False 3, refillRate = Num False 1, lastRefillTime = 0\<rparr>],
         store = \<lparr>buckets = [(''k'', \<lparr>bucket = 0, lastAccessed = 0\<rparr>)],
                  store_config = \<lparr>cfg_Capacity = 3, cfg_RefillRate = Num False 1\<rparr>,
                  cleanupAge = 0, lastCleanup = 0\<rparr>\<rparr>) \<and>
   (\<exists>w2. GetBucket
            \<lparr>heap = [\<lparr>capacity = 3, tokens = Num False 2, refillRate = Num False 1, lastRefillTime = 1\<rparr>],
             store = \<lparr>buckets = [(''k'', \<lparr>bucket = 0, lastAccessed = 0\<rparr>)],
                      store_config = \<lparr>cfg_Capacity = 3, cfg_RefillRate = Num False 1\<rparr>,
                      cleanupAge = 0, lastCleanup = 0\<rparr>\<rparr> ''k'' 5 5 = (Inr 0, w2) \<and>
          heap w2 = [\<lparr>capacity = 3, tokens = Num False 2, refillRate = Num False 1, lastRefillTime = 1\<rparr>] \<and>
          Count (store w2) = 1)"
proof -
  let ?w = "\<lparr>heap = [], store = \<lparr>buckets = [], store_config = \<lparr>cfg_Capacity = 3, cfg_RefillRate = Num False 1\<rparr>,
                                     cleanupAge = 0, lastCleanup = 0\<rparr>\<rparr>"
  let ?h = "[\<lparr>capacity = 3, tokens = Num False 2, refillRate = Num False 1, lastRefillTime = 1\<rparr>]"
  have wf: "wf_world ?w" by (simp add: wf_world_def valid_config_def valof_def)
  have k: "''k'' \<noteq> []" by simp
  have g: "GetBucket ?w ''k'' 0 0
     = (Inr 0,
        \<lparr>heap = [\<lparr>capacity = 3, tokens = Num False 3, refillRate = Num False 1, lastRefillTime = 0\<rparr>],
         store = \<lparr>buckets = [(''k'', \<lparr>bucket = 0, lastAccessed = 0\<rparr>)],
                  store_config = \<lparr>cfg_Capacity = 3, cfg_RefillRate = Num False 1\<rparr>,
                  cleanupAge = 0, lastCleanup = 0\<rparr>\<rparr>)"
    by (simp add: GetBucket_def NewBucket_def f64_eval)
  obtain a w1 w2 where
    g1: "GetBucket ?w ''k'' 0 0 = (Inr a, w1)" and
    g2: "GetBucket (w1\<lparr>heap := ?h\<rparr>) ''k'' 5 5 = (Inr a, w2)" and
    h2: "heap w2 = ?h" and c: "Count (store w2) = Count (store w1)"
    using GetBucket_idempotent[OF wf k, where tc = 0 and ta = 0 and h = ?h and tc' = 5 and ta' = 5]
    by blast
  have a: "a = 0" using g g1 by simp
  have w1: "w1 = \<lparr>heap = [\<lparr>capacity = 3, tokens = Num False 3, refillRate = Num False 1, lastRefillTime = 0\<rparr>],
         store = \<lparr>buckets = [(''k'', \<lparr>bucket = 0, lastAccessed = 0\<rparr>)],
                  store_config = \<lparr>cfg_Capacity = 3, cfg_RefillRate = Num False 1\<rparr>,
                  cleanupAge = 0, lastCleanup = 0\<rparr>\<rparr>"
    using g g1 by simp
  have c1: "Count (store w2) = 1" using c by (simp add: w1 Count_def)
  have "GetBucket
            \<lparr>heap = ?h,
             store = \<lparr>buckets = [(''k'', \<lparr>bucket = 0, lastAccessed = 0\<rparr>)],
                      store_config = \<lparr>cfg_Capacity = 3, cfg_RefillRate = Num False 1\<rparr>,
                      cleanupAge = 0, lastCleanup = 0\<rparr>\<rparr> ''k'' 5 5 = (Inr 0, w2)"
    using g2 by (simp add: w1 a)
  then show ?thesis using wf g h2 c1 by blast
qed

text \<open>
  Claim C6. With the empty key both the limiter's \<^verbatim>\<open>Allow\<close> and the store's
  \<^verbatim>\<open>GetBucket\<close> return the invalid-key error and leave the whole state (every
  bucket, the store's map and so its count) exactly as it was.
\<close>

theorem invalid_key_no_effect:
  "rl_Allow oor w [] tc ta t1 t2 t3 = (Inl ErrInvalidKey, w) \<and>
   GetBucket w [] tc ta = (Inl ErrInvalidKey, w) \<and>
   Count (store (snd (rl_Allow oor w [] tc ta t1 t2 t3))) = Count (store w) \<and>
   Count (store (snd (GetBucket w [] tc ta))) = Count (store w)"
  by (simp add: rl_Allow_def GetBucket_def)

text \<open>A store holding one bucket, asked with the empty key.\<close>

theorem invalid_key_no_effect_witness:
  "rl_Allow oor_min
     \<lparr>heap = [\<lparr>capacity = 3, tokens = Num False 2, refillRate = Num False 1, lastRefillTime = 1\<rparr>],
      store = \<lparr>buckets = [(''k'', \<lparr>bucket = 0, lastAccessed = 1\<rparr>)],
               store_config = \<lparr>cfg_Capacity = 3, cfg_RefillRate = Num False 1\<rparr>,
               cleanupAge = 0, lastCleanup = 0\<rparr>\<rparr> [] 2 2 2 2 2
   = (Inl ErrInvalidKey,
      \<lparr>heap = [\<lparr>capacity = 3, tokens = Num False 2, refillRate = Num False 1, lastRefillTime = 1\<rparr>],
       store = \<lparr>buckets = [(''k'', \<lparr>bucket = 0, lastAccessed = 1\<rparr>)],
               store_config = \<lparr>cfg_Capacity = 3, cfg_RefillRate = Num False 1\<rparr>,
               cleanupAge = 0, lastCleanup = 0\<rparr>\<rparr>)"
  using invalid_key_no_effect[of oor_min
     "\<lparr>heap = [\<lparr>capacity = 3, tokens = Num False 2, refillRate = Num False 1, lastRefillTime = 1\<rparr>],
      store = \<lparr>buckets = [(''k'', \<lparr>bucket = 0, lastAccessed = 1\<rparr>)],
               store_config = \<lparr>cfg_Capacity = 3, cfg_RefillRate = Num False 1\<rparr>,
               cleanupAge = 0, lastCleanup = 0\<rparr>\<rparr>" 2 2 2 2 2]
  by simp

section \<open>Eviction\<close>

lemma map_of_filter_None:
  assumes "distinct (map fst al)" and "map_of al k = Some e" and "\<not> P (k, e)"
  shows "map_of (filter P al) k = None"
proof -
  have "k \<notin> fst ` set (filter P al)"
  proof
    assume "k \<in> fst ` set (filter P al)"
    then obtain e' where e': "(k, e') \<in> set al" "P (k, e')" by auto
    have "(k, e) \<in> set al" using assms(2) by (rule map_of_SomeD)
    then have "e' = e" using assms(1) e'(1) by (meson eq_key_imp_eq_value)
    then show False using e'(2) assms(3) by simp
  qed
  then show ?thesis by (simp add: map_of_eq_None_iff)
qed

lemma length_filter_split:
  "length (filter (\<lambda>(k, e). \<not> P e) al) + length (filter (\<lambda>(k, e). P e) al) = length al"
  by (induction al) auto

lemma Cleanup_enabled:
  assumes "cleanupAge s \<noteq> 0" and "distinct (map fst (buckets s))"
  shows "Cleanup s now =
     (length (filter (\<lambda>(k, e). Before (lastAccessed e) (Add now (neg64 (cleanupAge s)))) (buckets s)),
      s\<lparr>buckets := filter (\<lambda>(k, e). \<not> Before (lastAccessed e) (Add now (neg64 (cleanupAge s))))
                      (buckets s),
        lastCleanup := now\<rparr>)"
  using assms by (simp add: Cleanup_def Let_def cleanup_loop_distinct)

lemma wf_world_Cleanup:
  assumes "wf_world w"
  shows "wf_world (w\<lparr>store := snd (Cleanup (store w) now)\<rparr>)"
proof (cases "cleanupAge (store w) = 0")
  case True
  then show ?thesis using assms by (simp add: Cleanup_def)
next
  case False
  have d: "distinct (map fst (buckets (store w)))" using assms by (simp add: wf_world_def)
  show ?thesis
    using assms by (simp add: Cleanup_enabled[OF False d] wf_world_def distinct_map_filter list_all_iff)
qed

text \<open>
  Claim C8, as amended, for a well-formed store. \<^verbatim>\<open>Cleanup()\<close> returns 0 and changes
  nothing when \<open>cleanupAge\<close> is 0. Otherwise it removes exactly the entries whose \<open>lastAccessed\<close>
  is before the cutoff \<^verbatim>\<open>now.Add(-cleanupAge)\<close> and returns how many it removed. For
  every \<open>cleanupAge\<close> other than the smallest \<^verbatim>\<open>int64\<close>, whose negation wraps
  around to itself, that cutoff is the instant \<open>now - cleanupAge\<close>. So when more than a
  positive \<open>cleanupAge\<close> has passed since the last access to key \<open>k\<close>,
  \<^verbatim>\<open>Cleanup\<close> removes the entry of \<open>k\<close>, and the next \<^verbatim>\<open>GetBucket(k)\<close> returns a
  newly allocated bucket holding \<^verbatim>\<open>float64(capacity)\<close> tokens, which is the full
  capacity whenever the capacity is at most \<open>2 ^ 53\<close>.
\<close>

theorem Cleanup_evicts_idle:
  assumes "wf_world w"
  shows
   "(cleanupAge (store w) = 0 \<longrightarrow> Cleanup (store w) now = (0, store w)) \<and>
    (cleanupAge (store w) \<noteq> 0 \<longrightarrow>
       buckets (snd (Cleanup (store w) now))
         = filter (\<lambda>(k, e). \<not> Before (lastAccessed e) (Add now (neg64 (cleanupAge (store w)))))
             (buckets (store w)) \<and>
       fst (Cleanup (store w) now)
         = length (filter (\<lambda>(k, e). Before (lastAccessed e) (Add now (neg64 (cleanupAge (store w)))))
             (buckets (store w))) \<and>
       Count (snd (Cleanup (store w) now)) + fst (Cleanup (store w) now) = Count (store w)) \<and>
    (minDuration < cleanupAge (store w) \<longrightarrow>
       (\<forall>t. Before t (Add now (neg64 (cleanupAge (store w)))) \<longleftrightarrow> t < now - cleanupAge (store w))) \<and>
    (key \<noteq> [] \<and> 0 < cleanupAge (store w) \<and> map_of (buckets (store w)) key = Some e \<and>
     cleanupAge (store w) < now - lastAccessed e \<longrightarrow>
       map_of (buckets (snd (Cleanup (store w) now))) key = None \<and>
       bucket e \<noteq> length (heap w) \<and>
       (\<exists>w2. GetBucket (w\<lparr>store := snd (Cleanup (store w) now)\<rparr>) key tc ta
                = (Inr (length (heap w)), w2) \<and>
             heap w2 ! length (heap w) =
               \<lparr>capacity = cfg_Capacity (store_config (store w)),
                tokens = f64_of_int (sint (cfg_Capacity (store_config (store w)))),
                refillRate = cfg_RefillRate (store_config (store w)),
                lastRefillTime = tc\<rparr>)) \<and>
    (sint (cfg_Capacity (store_config (store w))) \<le> 2 ^ 53 \<longrightarrow>
       f64_of_int (sint (cfg_Capacity (store_config (store w))))
         = Num False (real_of_int (sint (cfg_Capacity (store_config (store w))))))"
proof -
  let ?s = "store w"
  let ?cut = "Add now (neg64 (cleanupAge ?s))"
  have d: "distinct (map fst (buckets ?s))" using assms by (simp add: wf_world_def)
  have p1: "cleanupAge ?s = 0 \<longrightarrow> Cleanup ?s now = (0, ?s)"
    by (simp add: Cleanup_def)
  have p2: "cleanupAge ?s \<noteq> 0 \<longrightarrow>
       buckets (snd (Cleanup ?s now))
         = filter (\<lambda>(k, e). \<not> Before (lastAccessed e) ?cut) (buckets ?s) \<and>
       fst (Cleanup ?s now)
         = length (filter (\<lambda>(k, e). Before (lastAccessed e) ?cut) (buckets ?s)) \<and>
       Count (snd (Cleanup ?s now)) + fst (Cleanup ?s now) = Count ?s"
  proof
    assume ne: "cleanupAge ?s \<noteq> 0"
    have "length (filter (\<lambda>(k, e). \<not> Before (lastAccessed e) ?cut) (buckets ?s))
          + length (filter (\<lambda>(k, e). Before (lastAccessed e) ?cut) (buckets ?s))
          = length (buckets ?s)"
      by (rule length_filter_split)
    then show "buckets (snd (Cleanup ?s now))
         = filter (\<lambda>(k, e). \<not> Before (lastAccessed e) ?cut) (buckets ?s) \<and>
       fst (Cleanup ?s now)
         = length (filter (\<lambda>(k, e). Before (lastAccessed e) ?cut) (buckets ?s)) \<and>
       Count (snd (Cleanup ?s now)) + fst (Cleanup ?s now) = Count ?s"
      by (simp add: Cleanup_enabled[OF ne d] Count_def)
  qed
  have p3: "minDuration < cleanupAge ?s \<longrightarrow>
       (\<forall>t. Before t ?cut \<longleftrightarrow> t < now - cleanupAge ?s)"
    by (simp add: minDuration_def neg64_def Add_def Before_def)
  have p4: "map_of (buckets (snd (Cleanup ?s now))) key = None \<and>
       bucket e \<noteq> length (heap w) \<and>
       (\<exists>w2. GetBucket (w\<lparr>store := snd (Cleanup ?s now)\<rparr>) key tc ta
                = (Inr (length (heap w)), w2) \<and>
             heap w2 ! length (heap w) =
               \<lparr>capacity = cfg_Capacity (store_config ?s),
                tokens = f64_of_int (sint (cfg_Capacity (store_config ?s))),
                refillRate = cfg_RefillRate (store_config ?s),
                lastRefillTime = tc\<rparr>)"
    if k: "key \<noteq> []" and age: "0 < cleanupAge ?s"
      and e: "map_of (buckets ?s) key = Some e"
      and idle: "cleanupAge ?s < now - lastAccessed e"
  proof -
    have ne: "cleanupAge ?s \<noteq> 0" using age by simp
    have old: "Before (lastAccessed e) ?cut"
      using age idle by (simp add: neg64_def Add_def Before_def)
    have gone: "map_of (buckets (snd (Cleanup ?s now))) key = None"
      using old by (simp add: Cleanup_enabled[OF ne d] map_of_filter_None[OF d e])
    have lt: "bucket e < length (heap w)"
      using assms e by (auto simp: wf_world_def intro: map_of_bucket_bound)
    let ?w' = "w\<lparr>store := snd (Cleanup ?s now)\<rparr>"
    have wf': "wf_world ?w'" using assms by (rule wf_world_Cleanup)
    have none': "map_of (buckets (store ?w')) key = None" using gone by simp
    have cfg: "store_config (store ?w') = store_config ?s"
      by (simp add: Cleanup_enabled[OF ne d])
    obtain a w2 where g: "GetBucket ?w' key tc ta = (Inr a, w2)"
      and fresh: "a = length (heap ?w') \<and> heap w2 ! a =
                \<lparr>capacity = cfg_Capacity (store_config (store ?w')),
                 tokens = f64_of_int (sint (cfg_Capacity (store_config (store ?w')))),
                 refillRate = cfg_RefillRate (store_config (store ?w')),
                 lastRefillTime = tc\<rparr>"
      using GetBucket_succeeds[OF wf' k, of tc ta] none' by blast
    have a: "a = length (heap w)" using fresh by simp
    have g': "GetBucket ?w' key tc ta = (Inr (length (heap w)), w2)" using g a by simp
    have fresh': "heap w2 ! length (heap w) =
               \<lparr>capacity = cfg_Capacity (store_config ?s),
                tokens = f64_of_int (sint (cfg_Capacity (store_config ?s))),
                refillRate = cfg_RefillRate (store_config ?s),
                lastRefillTime = tc\<rparr>"
      using fresh unfolding cfg a by simp
    have ne': "bucket e \<noteq> length (heap w)" using lt by simp
    show ?thesis using gone ne' g' fresh' by (intro conjI exI[of _ w2])
  qed
  have p4': "key \<noteq> [] \<and> 0 < cleanupAge ?s \<and> map_of (buckets ?s) key = Some e \<and>
     cleanupAge ?s < now - lastAccessed e \<longrightarrow>
       map_of (buckets (snd (Cleanup ?s now))) key = None \<and>
       bucket e \<noteq> length (heap w) \<and>
       (\<exists>w2. GetBucket (w\<lparr>store := snd (Cleanup ?s now)\<rparr>) key tc ta
                = (Inr (length (heap w)), w2) \<and>
             heap w2 ! length (heap w) =
               \<lparr>capacity = cfg_Capacity (store_config ?s),
                tokens = f64_of_int (sint (cfg_Capacity (store_config ?s))),
                refillRate = cfg_RefillRate (store_config ?s),
                lastRefillTime = tc\<rparr>)"
  proof (intro impI, elim conjE)
    assume "key \<noteq> []" "0 < cleanupAge ?s" "map_of (buckets ?s) key = Some e"
      "cleanupAge ?s < now - lastAccessed e"
    then show "map_of (buckets (snd (Cleanup ?s now))) key = None \<and>
       bucket e \<noteq> length (heap w) \<and>
       (\<exists>w2. GetBucket (w\<lparr>store := snd (Cleanup ?s now)\<rparr>) key tc ta
                = (Inr (length (heap w)), w2) \<and>
             heap w2 ! length (heap w) =
               \<lparr>capacity = cfg_Capacity (store_config ?s),
                tokens = f64_of_int (sint (cfg_Capacity (store_config ?s))),
                refillRate = cfg_RefillRate (store_config ?s),
                lastRefillTime = tc\<rparr>)"
      by (rule p4)
  qed
  have p5: "sint (cfg_Capacity (store_config ?s)) \<le> 2 ^ 53 \<longrightarrow>
       f64_of_int (sint (cfg_Capacity (store_config ?s)))
         = Num False (real_of_int (sint (cfg_Capacity (store_config ?s))))"
    using assms by (simp add: wf_world_def valid_config_def f64_of_int_exact)
  show ?thesis by (rule conjI[OF p1 conjI[OF p2 conjI[OF p3 conjI[OF p4' p5]]]])
qed

text \<open>
  Claim C8 as stated fails at two extremes. With \<open>cleanupAge\<close> the smallest
  \<^verbatim>\<open>int64\<close>, an entry last used at time 0 is older than \<open>now - cleanupAge\<close> at
  time 1, yet \<^verbatim>\<open>Cleanup\<close> keeps it and returns 0. And a fresh bucket of capacity
  \<open>2 ^ 53 + 5\<close> holds \<open>2 ^ 53 + 4\<close> tokens, not its capacity.
\<close>

theorem Cleanup_keeps_old_entry:
  "Cleanup \<lparr>buckets = [(''user1'', \<lparr>bucket = 0, lastAccessed = 0\<rparr>)],
            store_config = \<lparr>cfg_Capacity = 3, cfg_RefillRate = Num False 1\<rparr>,
            cleanupAge = - (2 ^ 63), lastCleanup = 0\<rparr> 1
     = (0, \<lparr>buckets = [(''user1'', \<lparr>bucket = 0, lastAccessed = 0\<rparr>)],
            store_config = \<lparr>cfg_Capacity = 3, cfg_RefillRate = Num False 1\<rparr>,
            cleanupAge = - (2 ^ 63), lastCleanup = 1\<rparr>) \<and>
   (0 :: int) < 1 - (- (2 ^ 63)) \<and>
   NewBucket 9007199254740997 (Num False 1) 0
     = Inr \<lparr>capacity = 9007199254740997, tokens = Num False 9007199254740996,
            refillRate = Num False 1, lastRefillTime = 0\<rparr>"
  by (simp add: Cleanup_def Before_def Add_def neg64_def NewBucket_def f64_eval)

text \<open>
  A store with \<open>cleanupAge\<close> of 100 ms whose only key was last used at time 0: a
  cleanup at 150 ms removes it, and the key then gets a new, full bucket. The same store
  with \<open>cleanupAge = 0\<close> is left alone.
\<close>

theorem Cleanup_evicts_idle_witness:
  "wf_world \<lparr>heap = [\<lparr>capacity = 3, tokens = Num False 1, refillRate = Num False 1, lastRefillTime = 0\<rparr>],
             store = \<lparr>buckets = [(''user1'', \<lparr>bucket = 0, lastAccessed = 0\<rparr>)],
                      store_config = \<lparr>cfg_Capacity = 3, cfg_RefillRate = Num False 1\<rparr>,
                      cleanupAge = 100000000, lastCleanup = 0\<rparr>\<rparr> \<and>
   fst (Cleanup \<lparr>buckets = [(''user1'', \<lparr>bucket = 0, lastAccessed = 0\<rparr>)],
                 store_config = \<lparr>cfg_Capacity = 3, cfg_RefillRate = Num False 1\<rparr>,
                 cleanupAge = 100000000, lastCleanup = 0\<rparr> 150000000) = 1 \<and>
   Count (snd (Cleanup \<lparr>buckets = [(''user1'', \<lparr>bucket = 0, lastAccessed = 0\<rparr>)],
                 store_config = \<lparr>cfg_Capacity = 3, cfg_RefillRate = Num False 1\<rparr>,
                 cleanupAge = 100000000, lastCleanup = 0\<rparr> 150000000)) = 0 \<and>
   (\<exists>w2. GetBucket
            \<lparr>heap = [\<lparr>capacity = 3, tokens = Num False 1, refillRate = Num False 1, lastRefillTime = 0\<rparr>],
             store = snd (Cleanup \<lparr>buckets = [(''user1'', \<lparr>bucket = 0, lastAccessed = 0\<rparr>)],
                 store_config = \<lparr>cfg_Capacity = 3, cfg_RefillRate = Num False 1\<rparr>,
                 cleanupAge = 100000000, lastCleanup = 0\<rparr> 150000000)\<rparr>
            ''user1'' 200000000 200000000 = (Inr 1, w2) \<and>
          heap w2 ! 1 = \<lparr>capacity = 3, tokens = Num False 3, refillRate = Num False 1, lastRefillTime = 200000000\<rparr>) \<and>
   Cleanup \<lparr>buckets = [(''user1'', \<lparr>bucket = 0, lastAccessed = 0\<rparr>)],
            store_config = \<lparr>cfg_Capacity = 3, cfg_RefillRate = Num False 1\<rparr>,
            cleanupAge = 0, lastCleanup = 0\<rparr> 150000000
     = (0, \<lparr>buckets = [(''user1'', \<lparr>bucket = 0, lastAccessed = 0\<rparr>)],
            store_config = \<lparr>cfg_Capacity = 3, cfg_RefillRate = Num False 1\<rparr>,
            cleanupAge = 0, lastCleanup = 0\<rparr>)"
proof -
  let ?h = "[\<lparr>capacity = 3, tokens = Num False 1, refillRate = Num False 1, lastRefillTime = 0\<rparr>]"
  let ?s = "\<lparr>buckets = [(''user1'', \<lparr>bucket = 0, lastAccessed = 0\<rparr>)],
            store_config = \<lparr>cfg_Capacity = 3, cfg_RefillRate = Num False 1\<rparr>,
            cleanupAge = 100000000, lastCleanup = 0\<rparr>"
  let ?z = "\<lparr>buckets = [(''user1'', \<lparr>bucket = 0, lastAccessed = 0\<rparr>)],
            store_config = \<lparr>cfg_Capacity = 3, cfg_RefillRate = Num False 1\<rparr>,
            cleanupAge = 0, lastCleanup = 0\<rparr>"
  have wf: "wf_world \<lparr>heap = ?h, store = ?s\<rparr>" and wfz: "wf_world \<lparr>heap = ?h, store = ?z\<rparr>"
    by (simp_all add: wf_world_def valid_config_def valof_def)
  show ?thesis
    using wf
      Cleanup_evicts_idle[OF wf, of 150000000 "''user1''" "\<lparr>bucket = 0, lastAccessed = 0\<rparr>"
        200000000 200000000]
      Cleanup_evicts_idle[OF wfz, of 150000000]
    by (simp add: Before_def Add_def neg64_def Count_def f64_eval)
qed


section \<open>Decisions\<close>

text \<open>
  Claim C5. The limiter's \<^verbatim>\<open>Allow(key)\<close> is run on a store of capacity 1 refilled at
  3 tokens per second. The first request, at time 0, creates the bucket of the key and is
  allowed. For the second request every clock reading is 333333333 ns: the refill brings
  the bucket just short of one token, the request is denied with 0 remaining, and
  \<^verbatim>\<open>RetryAfter()\<close> cuts the remaining third of a nanosecond off, so the decision is a
  denial whose \<open>RetryAfter\<close> is zero, although the claim has it zero only for an allowed
  request.
\<close>

theorem denied_with_zero_retry:
  "rl_Allow oor_min
     \<lparr>heap = [], store = \<lparr>buckets = [],
                          store_config = \<lparr>cfg_Capacity = 1, cfg_RefillRate = Num False 3\<rparr>,
                          cleanupAge = 0, lastCleanup = 0\<rparr>\<rparr> ''k'' 0 0 0 0 0
   = (Inr \<lparr>d_Allowed = True, d_Remaining = 0, d_Limit = 1, d_RetryAfter = 0,
           d_Key = ''k'', d_Route = []\<rparr>,
      \<lparr>heap = [\<lparr>capacity = 1, tokens = Num False 0, refillRate = Num False 3,
                lastRefillTime = 0\<rparr>],
       store = \<lparr>buckets = [(''k'', \<lparr>bucket = 0, lastAccessed = 0\<rparr>)],
                store_config = \<lparr>cfg_Capacity = 1, cfg_RefillRate = Num False 3\<rparr>,
                cleanupAge = 0, lastCleanup = 0\<rparr>\<rparr>) \<and>
   fst (rl_Allow oor_min
     \<lparr>heap = [\<lparr>capacity = 1, tokens = Num False 0, refillRate = Num False 3,
               lastRefillTime = 0\<rparr>],
      store = \<lparr>buckets = [(''k'', \<lparr>bucket = 0, lastAccessed = 0\<rparr>)],
               store_config = \<lparr>cfg_Capacity = 1, cfg_RefillRate = Num False 3\<rparr>,
               cleanupAge = 0, lastCleanup = 0\<rparr>\<rparr>
     ''k'' 333333333 333333333 333333333 333333333 333333333)
   = Inr \<lparr>d_Allowed = False, d_Remaining = 0, d_Limit = 1, d_RetryAfter = 0,
          d_Key = ''k'', d_Route = []\<rparr>"
  by (simp add: rl_Allow_def GetBucket_def touch_def NewBucket_def Allow_def AllowN_def
      Remaining_def RetryAfter_def Capacity_def refill_def f64_eval)

end
